theory Spec2Isabelle
  imports Main "HOL-Library.Word"
begin

unbundle bit_operations_syntax

section \<open>Data model\<close>

text \<open>
  The ring buffer of \<^verbatim>\<open>AudioRingBuffer.c\<close>, its C++ twin of
  \<^verbatim>\<open>AudioRingBuffer.hpp\<close> and the constructor of the driver's own
  \<^verbatim>\<open>RingBuffer\<close> class (\<^verbatim>\<open>AudiDeckDriver.cpp\<close>).

  \<^item> \<^verbatim>\<open>uint32_t\<close> is \<open>32 word\<close>, \<^verbatim>\<open>uint64_t\<close> (the two cursors) is
    \<open>64 word\<close>: \<open>+\<close> and \<open>-\<close> wrap as in C.
  \<^item> A sample (\<^verbatim>\<open>float\<close>) is only ever copied or zeroed by the buffer, so it is a
    value of any type \<open>'a\<close> with a \<open>0\<close>: the all-zero bit pattern that
    \<^verbatim>\<open>calloc\<close> and \<^verbatim>\<open>memset(.., 0, ..)\<close> produce. \<^verbatim>\<open>sizeof(float)\<close> is 4.
  \<^item> \<^verbatim>\<open>size_t\<close> is 64 bits wide (the driver is a 64-bit CoreAudio plug-in). An
    array offset \<^verbatim>\<open>(size_t)pos * channelCount + ch\<close> is built from three 32-bit values,
    so it is below \<open>2 ^ 64\<close> and is computed on \<open>nat\<close>; the 64-bit computation is shown
    to agree (lemma \<open>size_t_offset_exact\<close>). Byte counts passed to \<^verbatim>\<open>memset\<close> can
    exceed 64 bits and keep their \<open>mod 2 ^ 64\<close>.
  \<^item> An array is a list. An access outside the array, undefined behaviour in C, is the
    fault \<open>OutOfBounds\<close>; every function that touches an array returns
    \<open>fault + result\<close>. The C++ exception \<^verbatim>\<open>std::bad_alloc\<close> is the fault \<open>BadAlloc\<close>.
  \<^item> A pointer is \<open>NULL\<close> or \<open>Ptr x\<close> with the object it points to; a function that
    mutates through a pointer returns the pointer with the updated object. The caller's
    array and the buffer's store are distinct objects.
\<close>

datatype fault = OutOfBounds | BadAlloc

datatype 'a ptr = NULL | Ptr 'a

record 'a AudioRingBuffer =
  buffer :: "'a list"
  bufferSize :: "32 word"
  channelCount :: "32 word"
  writeIndex :: "64 word"
  readIndex :: "64 word"

subsection \<open>Array accesses and loops\<close>

definition load :: "'a list \<Rightarrow> nat \<Rightarrow> fault + 'a" where
  "load xs i = (if i < length xs then Inr (xs ! i) else Inl OutOfBounds)"

definition store_at :: "'a list \<Rightarrow> nat \<Rightarrow> 'a \<Rightarrow> fault + 'a list" where
  "store_at xs i v = (if i < length xs then Inr (xs[i := v]) else Inl OutOfBounds)"

text \<open>
  \<^verbatim>\<open>for (uint32_t i = 0; i < n; i++) body(i)\<close>: the body runs for \<open>i = 0, \<dots>, n - 1\<close> in
  this order and the first fault ends the loop. The counter stays below the 32-bit bound
  \<open>n\<close>, so \<^verbatim>\<open>i++\<close> never wraps and the counter is a \<open>nat\<close>.
\<close>

primrec for_loop :: "nat \<Rightarrow> (nat \<Rightarrow> 's \<Rightarrow> fault + 's) \<Rightarrow> 's \<Rightarrow> fault + 's" where
  "for_loop 0 body s = Inr s"
| "for_loop (Suc n) body s =
     (case for_loop n body s of Inl e \<Rightarrow> Inl e | Inr s' \<Rightarrow> body n s')"

text \<open>
  The inner loop of write, read and peek:
  \<^verbatim>\<open>for (ch = 0; ch < channelCount; ch++) dst[dstOffset + ch] = src[srcOffset + ch];\<close>
\<close>

definition copy_frame :: "'a list \<Rightarrow> nat \<Rightarrow> nat \<Rightarrow> nat \<Rightarrow> 'a list \<Rightarrow> fault + 'a list" where
  "copy_frame src srcOffset dstOffset channels dst =
     for_loop channels
       (\<lambda>ch d. case load src (srcOffset + ch) of
                  Inl e \<Rightarrow> Inl e
                | Inr v \<Rightarrow> store_at d (dstOffset + ch) v) dst"

text \<open>
  \<^verbatim>\<open>memset(p + offset, 0, nbytes)\<close> on an array of 4-byte samples, for a byte count that is
  a multiple of 4: it zeroes \<open>nbytes div 4\<close> samples starting at \<open>offset\<close>.
\<close>

definition memset0 :: "'a::zero list \<Rightarrow> nat \<Rightarrow> nat \<Rightarrow> fault + 'a list" where
  "memset0 xs offset nbytes =
     (let n = nbytes div 4
      in if n = 0 then Inr xs
         else if offset + n \<le> length xs
         then Inr (take offset xs @ replicate n 0 @ drop (offset + n) xs)
         else Inl OutOfBounds)"

text \<open>
  The position of frame \<open>idx + i\<close> in the store:
  \<^verbatim>\<open>(uint32_t)((idx + i) & bufferMask)\<close>, with \<open>idx\<close> a 64-bit cursor and \<open>i\<close> and the
  mask 32-bit values that C widens to 64 bits for the addition and the \<^verbatim>\<open>&\<close>.
\<close>

definition bufferPos :: "64 word \<Rightarrow> nat \<Rightarrow> 32 word \<Rightarrow> 32 word" where
  "bufferPos idx i bufferMask = ucast ((idx + of_nat i) AND (ucast bufferMask :: 64 word))"

section \<open>The C interface (AudioRingBuffer.c)\<close>

text \<open>
  \<^verbatim>\<open>calloc(n, elemSize)\<close>: \<open>NULL\<close> when the allocator has no memory left (\<open>ok\<close> is
  false) or when \<open>n * elemSize\<close> bytes do not fit \<^verbatim>\<open>size_t\<close>; else \<open>n\<close> zeroed samples.
\<close>

definition calloc :: "bool \<Rightarrow> nat \<Rightarrow> nat \<Rightarrow> 'a::zero list ptr" where
  "calloc ok n elemSize = (if ok \<and> n * elemSize < 2 ^ 64 then Ptr (replicate n 0) else NULL)"

text \<open>
  \<^verbatim>\<open>uint32_t powerOf2Size = 1; while (powerOf2Size < bufferSizeFrames) powerOf2Size <<= 1;\<close>
  The shift is a 32-bit shift, so the loop need not end: \<open>None\<close> is "does not return".
\<close>

partial_function (option) round_up_loop :: "32 word \<Rightarrow> 32 word \<Rightarrow> 32 word option" where
  "round_up_loop powerOf2Size bufferSizeFrames =
     (if powerOf2Size < bufferSizeFrames
      then round_up_loop (push_bit 1 powerOf2Size) bufferSizeFrames
      else Some powerOf2Size)"

declare round_up_loop.simps [code]

text \<open>
  \<open>AudioRingBuffer_Create\<close>: \<open>malloc_ok\<close> and \<open>calloc_ok\<close> say whether the allocator
  serves the two requests. The result is \<open>None\<close> when the call does not return, \<open>Some NULL\<close>
  when an allocation fails, \<open>Some (Ptr b)\<close> with the new buffer otherwise.
\<close>

definition AudioRingBuffer_Create ::
  "bool \<Rightarrow> bool \<Rightarrow> 32 word \<Rightarrow> 32 word \<Rightarrow> 'a::zero AudioRingBuffer ptr option" where
  "AudioRingBuffer_Create malloc_ok calloc_ok bufferSizeFrames channels =
     (if \<not> malloc_ok then Some NULL
      else case round_up_loop 1 bufferSizeFrames of
        None \<Rightarrow> None
      | Some powerOf2Size \<Rightarrow>
          (let totalSamples = unat powerOf2Size * unat channels
           in case calloc calloc_ok totalSamples 4 of
                NULL \<Rightarrow> Some NULL
              | Ptr store \<Rightarrow>
                  Some (Ptr \<lparr>buffer = store, bufferSize = powerOf2Size,
                             channelCount = channels, writeIndex = 0, readIndex = 0\<rparr>)))"

definition AudioRingBuffer_Reset :: "'a::zero AudioRingBuffer ptr \<Rightarrow> fault + 'a AudioRingBuffer ptr" where
  "AudioRingBuffer_Reset p =
     (case p of
        NULL \<Rightarrow> Inr NULL
      | Ptr b \<Rightarrow>
          (let totalSamples = unat (bufferSize b) * unat (channelCount b)
           in case memset0 (buffer b) 0 ((totalSamples * 4) mod 2 ^ 64) of
                Inl e \<Rightarrow> Inl e
              | Inr store \<Rightarrow> Inr (Ptr (b\<lparr>writeIndex := 0, readIndex := 0, buffer := store\<rparr>))))"

definition AudioRingBuffer_GetAvailableFrames :: "'a AudioRingBuffer ptr \<Rightarrow> 32 word" where
  "AudioRingBuffer_GetAvailableFrames p =
     (case p of
        NULL \<Rightarrow> 0
      | Ptr b \<Rightarrow> (let writeIdx = writeIndex b; readIdx = readIndex b in ucast (writeIdx - readIdx)))"

definition AudioRingBuffer_GetFreeFrames :: "'a AudioRingBuffer ptr \<Rightarrow> 32 word" where
  "AudioRingBuffer_GetFreeFrames p =
     (case p of
        NULL \<Rightarrow> 0
      | Ptr b \<Rightarrow> bufferSize b - AudioRingBuffer_GetAvailableFrames p)"

definition AudioRingBuffer_Write ::
  "'a AudioRingBuffer ptr \<Rightarrow> 'a list ptr \<Rightarrow> 32 word \<Rightarrow> fault + (32 word \<times> 'a AudioRingBuffer ptr)" where
  "AudioRingBuffer_Write p data frameCount =
     (case (p, data) of
        (Ptr b, Ptr d) \<Rightarrow>
          if frameCount = 0 then Inr (0, p)
          else
            let freeFrames = AudioRingBuffer_GetFreeFrames p;
                framesToWrite = (if frameCount < freeFrames then frameCount else freeFrames)
            in if framesToWrite = 0 then Inr (0, p)
               else
                 let writeIdx = writeIndex b;
                     bufferMask = bufferSize b - 1;
                     channels = unat (channelCount b)
                 in (case for_loop (unat framesToWrite)
                            (\<lambda>i. copy_frame d (i * channels)
                                    (unat (bufferPos writeIdx i bufferMask) * channels) channels)
                            (buffer b) of
                       Inl e \<Rightarrow> Inl e
                     | Inr store \<Rightarrow>
                         Inr (framesToWrite,
                              Ptr (b\<lparr>buffer := store, writeIndex := writeIdx + ucast framesToWrite\<rparr>)))
      | _ \<Rightarrow> Inr (0, p))"

text \<open>
  The functions that fill the caller's array return it as their last component.
\<close>

definition AudioRingBuffer_Read ::
  "'a::zero AudioRingBuffer ptr \<Rightarrow> 'a list ptr \<Rightarrow> 32 word
     \<Rightarrow> fault + (32 word \<times> 'a AudioRingBuffer ptr \<times> 'a list ptr)" where
  "AudioRingBuffer_Read p data frameCount =
     (case (p, data) of
        (Ptr b, Ptr d) \<Rightarrow>
          if frameCount = 0 then Inr (0, p, data)
          else
            let availableFrames = AudioRingBuffer_GetAvailableFrames p;
                framesToRead = (if frameCount < availableFrames then frameCount else availableFrames)
            in if framesToRead = 0
               then (case memset0 d 0 ((unat frameCount * unat (channelCount b) * 4) mod 2 ^ 64) of
                       Inl e \<Rightarrow> Inl e
                     | Inr d' \<Rightarrow> Inr (0, p, Ptr d'))
               else
                 let readIdx = readIndex b;
                     bufferMask = bufferSize b - 1;
                     channels = unat (channelCount b)
                 in (case for_loop (unat framesToRead)
                            (\<lambda>i. copy_frame (buffer b)
                                    (unat (bufferPos readIdx i bufferMask) * channels)
                                    (i * channels) channels) d of
                       Inl e \<Rightarrow> Inl e
                     | Inr d' \<Rightarrow>
                         let b' = b\<lparr>readIndex := readIdx + ucast framesToRead\<rparr>
                         in if framesToRead < frameCount
                            then
                              let remainingOffset = unat framesToRead * channels;
                                  remainingSamples = unat (frameCount - framesToRead) * channels
                              in (case memset0 d' remainingOffset ((remainingSamples * 4) mod 2 ^ 64) of
                                    Inl e \<Rightarrow> Inl e
                                  | Inr d'' \<Rightarrow> Inr (framesToRead, Ptr b', Ptr d''))
                            else Inr (framesToRead, Ptr b', Ptr d'))
      | _ \<Rightarrow> Inr (0, p, data))"

definition AudioRingBuffer_Peek ::
  "'a AudioRingBuffer ptr \<Rightarrow> 'a list ptr \<Rightarrow> 32 word
     \<Rightarrow> fault + (32 word \<times> 'a AudioRingBuffer ptr \<times> 'a list ptr)" where
  "AudioRingBuffer_Peek p data frameCount =
     (case (p, data) of
        (Ptr b, Ptr d) \<Rightarrow>
          if frameCount = 0 then Inr (0, p, data)
          else
            let availableFrames = AudioRingBuffer_GetAvailableFrames p;
                framesToPeek = (if frameCount < availableFrames then frameCount else availableFrames)
            in if framesToPeek = 0 then Inr (0, p, data)
               else
                 let readIdx = readIndex b;
                     bufferMask = bufferSize b - 1;
                     channels = unat (channelCount b)
                 in (case for_loop (unat framesToPeek)
                            (\<lambda>i. copy_frame (buffer b)
                                    (unat (bufferPos readIdx i bufferMask) * channels)
                                    (i * channels) channels) d of
                       Inl e \<Rightarrow> Inl e
                     | Inr d' \<Rightarrow> Inr (framesToPeek, p, Ptr d'))
      | _ \<Rightarrow> Inr (0, p, data))"

definition AudioRingBuffer_Skip :: "'a AudioRingBuffer ptr \<Rightarrow> 32 word \<Rightarrow> 'a AudioRingBuffer ptr" where
  "AudioRingBuffer_Skip p frameCount =
     (case p of
        NULL \<Rightarrow> NULL
      | Ptr b \<Rightarrow>
          if frameCount = 0 then p
          else
            let availableFrames = AudioRingBuffer_GetAvailableFrames p;
                framesToSkip = (if frameCount < availableFrames then frameCount else availableFrames)
            in if framesToSkip > 0
               then (let readIdx = readIndex b in Ptr (b\<lparr>readIndex := readIdx + ucast framesToSkip\<rparr>))
               else p)"

section \<open>The C++ class (AudioRingBuffer.hpp)\<close>

text \<open>
  The class \<^verbatim>\<open>AudioRingBuffer\<close> of the header: the same state plus the stored
  mask. Its methods are prefixed \<open>hpp_\<close>; they have no null or zero guards, and the data
  pointer is an array.
\<close>

record 'a AudioRingBufferCpp =
  mBuffer :: "'a list"
  mBufferSize :: "32 word"
  mBufferMask :: "32 word"
  mChannelCount :: "32 word"
  mWriteIndex :: "64 word"
  mReadIndex :: "64 word"

text \<open>
  \<^verbatim>\<open>std::make_unique<float[]>(n)\<close> and \<^verbatim>\<open>new float[n]()\<close>: \<open>n\<close> zeroed samples, or
  \<^verbatim>\<open>std::bad_alloc\<close> when the allocator refuses or the byte size does not fit.
\<close>

definition new_floats :: "bool \<Rightarrow> nat \<Rightarrow> fault + 'a::zero list" where
  "new_floats ok n = (if ok \<and> n * 4 < 2 ^ 64 then Inr (replicate n 0) else Inl BadAlloc)"

text \<open>The constructor: \<open>None\<close> when the rounding loop does not end.\<close>

definition hpp_AudioRingBuffer ::
  "bool \<Rightarrow> 32 word \<Rightarrow> 32 word \<Rightarrow> (fault + 'a::zero AudioRingBufferCpp) option" where
  "hpp_AudioRingBuffer alloc_ok bufferSizeFrames channels =
     (case round_up_loop 1 bufferSizeFrames of
        None \<Rightarrow> None
      | Some size32 \<Rightarrow>
          Some (case new_floats alloc_ok (unat size32 * unat channels) of
                  Inl e \<Rightarrow> Inl e
                | Inr store \<Rightarrow>
                    (case memset0 store 0 ((unat size32 * unat channels * 4) mod 2 ^ 64) of
                       Inl e \<Rightarrow> Inl e
                     | Inr store' \<Rightarrow>
                         Inr \<lparr>mBuffer = store', mBufferSize = size32, mBufferMask = size32 - 1,
                              mChannelCount = channels, mWriteIndex = 0, mReadIndex = 0\<rparr>)))"

definition hpp_reset :: "'a::zero AudioRingBufferCpp \<Rightarrow> fault + 'a AudioRingBufferCpp" where
  "hpp_reset x =
     (case memset0 (mBuffer x) 0 ((unat (mBufferSize x) * unat (mChannelCount x) * 4) mod 2 ^ 64) of
        Inl e \<Rightarrow> Inl e
      | Inr store \<Rightarrow> Inr (x\<lparr>mWriteIndex := 0, mReadIndex := 0, mBuffer := store\<rparr>))"

definition hpp_availableFrames :: "'a AudioRingBufferCpp \<Rightarrow> 32 word" where
  "hpp_availableFrames x = (let write = mWriteIndex x; read = mReadIndex x in ucast (write - read))"

definition hpp_freeFrames :: "'a AudioRingBufferCpp \<Rightarrow> 32 word" where
  "hpp_freeFrames x = mBufferSize x - hpp_availableFrames x"

definition hpp_write ::
  "'a AudioRingBufferCpp \<Rightarrow> 'a list \<Rightarrow> 32 word \<Rightarrow> fault + (32 word \<times> 'a AudioRingBufferCpp)" where
  "hpp_write x d frameCount =
     (let free = hpp_freeFrames x;
          toWrite = (if frameCount < free then frameCount else free)
      in if toWrite = 0 then Inr (0, x)
         else
           let writeIdx = mWriteIndex x;
               channels = unat (mChannelCount x)
           in (case for_loop (unat toWrite)
                      (\<lambda>i. copy_frame d (i * channels)
                              (unat (bufferPos writeIdx i (mBufferMask x)) * channels) channels)
                      (mBuffer x) of
                 Inl e \<Rightarrow> Inl e
               | Inr store \<Rightarrow>
                   Inr (toWrite, x\<lparr>mBuffer := store, mWriteIndex := writeIdx + ucast toWrite\<rparr>)))"

definition hpp_read ::
  "'a::zero AudioRingBufferCpp \<Rightarrow> 'a list \<Rightarrow> 32 word
     \<Rightarrow> fault + (32 word \<times> 'a AudioRingBufferCpp \<times> 'a list)" where
  "hpp_read x d frameCount =
     (let available = hpp_availableFrames x;
          toRead = (if frameCount < available then frameCount else available)
      in if toRead = 0
         then (case memset0 d 0 ((unat frameCount * unat (mChannelCount x) * 4) mod 2 ^ 64) of
                 Inl e \<Rightarrow> Inl e
               | Inr d' \<Rightarrow> Inr (0, x, d'))
         else
           let readIdx = mReadIndex x;
               channels = unat (mChannelCount x)
           in (case for_loop (unat toRead)
                      (\<lambda>i. copy_frame (mBuffer x)
                              (unat (bufferPos readIdx i (mBufferMask x)) * channels)
                              (i * channels) channels) d of
                 Inl e \<Rightarrow> Inl e
               | Inr d' \<Rightarrow>
                   let x' = x\<lparr>mReadIndex := readIdx + ucast toRead\<rparr>
                   in if toRead < frameCount
                      then
                        let offset = unat toRead * channels;
                            remaining = unat (frameCount - toRead) * channels
                        in (case memset0 d' offset ((remaining * 4) mod 2 ^ 64) of
                              Inl e \<Rightarrow> Inl e
                            | Inr d'' \<Rightarrow> Inr (toRead, x', d''))
                      else Inr (toRead, x', d')))"

section \<open>The driver's RingBuffer (AudiDeckDriver.cpp)\<close>

text \<open>
  Only the constructor is needed. \<^verbatim>\<open>new float[frames * channels]()\<close> multiplies two
  \<^verbatim>\<open>uint32_t\<close>, so the element count wraps at \<open>2 ^ 32\<close>. The driver creates its buffer
  with \<^verbatim>\<open>kDevice_RingBufferSize = 48000 * 2\<close> frames and
  \<^verbatim>\<open>kDevice_ChannelCount = 2\<close> channels.
\<close>

record 'a RingBuffer =
  mBuffer_rb :: "'a list"
  mFrames :: "32 word"
  mChannels :: "32 word"
  mWritePos :: "64 word"
  mReadPos :: "64 word"

definition RingBuffer_ctor :: "bool \<Rightarrow> 32 word \<Rightarrow> 32 word \<Rightarrow> fault + 'a::zero RingBuffer" where
  "RingBuffer_ctor alloc_ok frames channels =
     (case new_floats alloc_ok (unat (frames * channels)) of
        Inl e \<Rightarrow> Inl e
      | Inr store \<Rightarrow>
          Inr \<lparr>mBuffer_rb = store, mFrames = frames, mChannels = channels,
               mWritePos = 0, mReadPos = 0\<rparr>)"

definition kDevice_RingBufferSize :: "32 word" where
  "kDevice_RingBufferSize = 48000 * 2"

definition kDevice_ChannelCount :: "32 word" where
  "kDevice_ChannelCount = 2"

section \<open>Specification-level notions\<close>

subsection \<open>Well-formed buffers and the queue they hold\<close>

text \<open>
  The representation invariant of a buffer object: the capacity is a power of two that a
  32-bit value can hold, the store has one slot per frame and channel and fits the address
  space, and the cursors are at most one capacity apart (in 64-bit arithmetic).
\<close>

definition wf :: "'a AudioRingBuffer \<Rightarrow> bool" where
  "wf b \<longleftrightarrow>
     (\<exists>k\<in>{..<32}. bufferSize b = 2 ^ k) \<and>
     length (buffer b) = unat (bufferSize b) * unat (channelCount b) \<and>
     length (buffer b) * 4 < 2 ^ 64 \<and>
     writeIndex b - readIndex b \<le> ucast (bufferSize b)"

definition available :: "'a AudioRingBuffer \<Rightarrow> nat" where
  "available b = unat (writeIndex b - readIndex b)"

text \<open>
  \<open>ring_view st R C N len\<close>: the first \<open>len\<close> samples found in the store \<open>st\<close> when it
  is read as a ring of \<open>C\<close> frames of \<open>N\<close> channels from frame position \<open>R\<close> on: sample
  \<open>m\<close> is channel \<open>m mod N\<close> of frame \<open>m div N\<close>. The \<open>contents\<close> of a buffer are
  its written and not yet consumed samples, oldest first.
\<close>

definition ring_view :: "'a list \<Rightarrow> nat \<Rightarrow> nat \<Rightarrow> nat \<Rightarrow> nat \<Rightarrow> 'a list" where
  "ring_view st R C N len = map (\<lambda>m. st ! (((R + m div N) mod C) * N + m mod N)) [0..<len]"

definition contents :: "'a AudioRingBuffer \<Rightarrow> 'a list" where
  "contents b =
     ring_view (buffer b) (unat (readIndex b)) (unat (bufferSize b)) (unat (channelCount b))
       (available b * unat (channelCount b))"

text \<open>The loops without their bounds checks, and the states that write, read and skip leave.\<close>

definition copy_block :: "'a list \<Rightarrow> nat \<Rightarrow> nat \<Rightarrow> nat \<Rightarrow> 'a list \<Rightarrow> 'a list" where
  "copy_block src so dof n dst =
     map (\<lambda>k. if dof \<le> k \<and> k < dof + n then src ! (so + (k - dof)) else dst ! k) [0..<length dst]"

primrec copy_frames ::
  "nat \<Rightarrow> 'a list \<Rightarrow> (nat \<Rightarrow> nat) \<Rightarrow> (nat \<Rightarrow> nat) \<Rightarrow> nat \<Rightarrow> 'a list \<Rightarrow> 'a list" where
  "copy_frames 0 src q p cc dst = dst"
| "copy_frames (Suc n) src q p cc dst = copy_block src (q n) (p n) cc (copy_frames n src q p cc dst)"

definition framesToWrite :: "'a AudioRingBuffer \<Rightarrow> 32 word \<Rightarrow> 32 word" where
  "framesToWrite b frameCount = min frameCount (AudioRingBuffer_GetFreeFrames (Ptr b))"

definition written :: "'a AudioRingBuffer \<Rightarrow> 'a list \<Rightarrow> 32 word \<Rightarrow> 'a AudioRingBuffer" where
  "written b d frameCount =
     b\<lparr>buffer := copy_frames (unat (framesToWrite b frameCount)) d
                   (\<lambda>i. i * unat (channelCount b))
                   (\<lambda>i. ((unat (writeIndex b) + i) mod unat (bufferSize b)) * unat (channelCount b))
                   (unat (channelCount b)) (buffer b),
       writeIndex := writeIndex b + ucast (framesToWrite b frameCount)\<rparr>"

definition framesToRead :: "'a AudioRingBuffer \<Rightarrow> 32 word \<Rightarrow> 32 word" where
  "framesToRead b frameCount = min frameCount (AudioRingBuffer_GetAvailableFrames (Ptr b))"

definition consumed :: "'a AudioRingBuffer \<Rightarrow> 32 word \<Rightarrow> 'a AudioRingBuffer" where
  "consumed b frameCount = b\<lparr>readIndex := readIndex b + ucast (framesToRead b frameCount)\<rparr>"

text \<open>A C++ object seen as the C struct, and a C struct's state put back into the object.\<close>

definition c_view :: "'a AudioRingBufferCpp \<Rightarrow> 'a AudioRingBuffer" where
  "c_view x = \<lparr>buffer = mBuffer x, bufferSize = mBufferSize x, channelCount = mChannelCount x,
               writeIndex = mWriteIndex x, readIndex = mReadIndex x\<rparr>"

definition of_c :: "'a AudioRingBufferCpp \<Rightarrow> 'a AudioRingBuffer \<Rightarrow> 'a AudioRingBufferCpp" where
  "of_c x b = x\<lparr>mBuffer := buffer b, mWriteIndex := writeIndex b, mReadIndex := readIndex b\<rparr>"

definition hpp_wf :: "'a AudioRingBufferCpp \<Rightarrow> bool" where
  "hpp_wf x \<longleftrightarrow> wf (c_view x) \<and> mBufferMask x = mBufferSize x - 1"

subsection \<open>Powers of two\<close>

text \<open>
  \<open>smallest_pow2_ge p n\<close>: \<open>p\<close> is the smallest power of two greater than or equal
  to \<open>n\<close>, as the specification words the realized capacity. The quantifiers are
  bounded (\<open>k < 2 ^ k\<close>), so the predicate can be evaluated.
\<close>

definition is_pow2 :: "nat \<Rightarrow> bool" where
  "is_pow2 p \<longleftrightarrow> (\<exists>k\<in>{..p}. p = 2 ^ k)"

definition smallest_pow2_ge :: "nat \<Rightarrow> nat \<Rightarrow> bool" where
  "smallest_pow2_ge p n \<longleftrightarrow> is_pow2 p \<and> n \<le> p \<and> (\<forall>q\<in>{n..<p}. \<not> is_pow2 q)"

subsection \<open>Sequences of calls and the FIFO they should implement\<close>

datatype 'a op =
    OpWrite "'a list" "32 word"
  | OpRead "'a list" "32 word"
  | OpAvailable
  | OpFree

datatype 'a outcome =
    Wrote "32 word"
  | ReadOut "32 word" "'a list ptr"
  | Count "32 word"

fun run_ops :: "'a::zero AudioRingBuffer ptr \<Rightarrow> 'a op list \<Rightarrow> fault + 'a outcome list" where
  "run_ops p [] = Inr []"
| "run_ops p (OpWrite d frameCount # ops) =
     (case AudioRingBuffer_Write p (Ptr d) frameCount of
        Inl e \<Rightarrow> Inl e
      | Inr (n, p') \<Rightarrow>
          (case run_ops p' ops of Inl e \<Rightarrow> Inl e | Inr outs \<Rightarrow> Inr (Wrote n # outs)))"
| "run_ops p (OpRead d frameCount # ops) =
     (case AudioRingBuffer_Read p (Ptr d) frameCount of
        Inl e \<Rightarrow> Inl e
      | Inr (n, p', d') \<Rightarrow>
          (case run_ops p' ops of Inl e \<Rightarrow> Inl e | Inr outs \<Rightarrow> Inr (ReadOut n d' # outs)))"
| "run_ops p (OpAvailable # ops) =
     (case run_ops p ops of
        Inl e \<Rightarrow> Inl e
      | Inr outs \<Rightarrow> Inr (Count (AudioRingBuffer_GetAvailableFrames p) # outs))"
| "run_ops p (OpFree # ops) =
     (case run_ops p ops of
        Inl e \<Rightarrow> Inl e
      | Inr outs \<Rightarrow> Inr (Count (AudioRingBuffer_GetFreeFrames p) # outs))"

text \<open>
  The caller's side of the contract: an array passed with \<open>frameCount\<close> holds at least
  \<open>frameCount\<close> frames of \<open>N\<close> samples, and an array is an object of the address space.
\<close>

fun op_fits :: "nat \<Rightarrow> 'a op \<Rightarrow> bool" where
  "op_fits N (OpWrite d frameCount) \<longleftrightarrow> unat frameCount * N \<le> length d"
| "op_fits N (OpRead d frameCount) \<longleftrightarrow> unat frameCount * N \<le> length d \<and> length d * 4 < 2 ^ 64"
| "op_fits N OpAvailable \<longleftrightarrow> True"
| "op_fits N OpFree \<longleftrightarrow> True"

text \<open>
  The FIFO of the specification, written from its words: a queue \<open>q\<close> of samples (whole
  frames of \<open>N\<close> samples) bounded by \<open>C\<close> frames. A write appends the first
  \<open>min frameCount free\<close> frames of its data and drops the rest; a read hands out the oldest
  \<open>min frameCount available\<close> frames, followed by silence up to \<open>frameCount\<close> frames,
  and removes them from the queue.
\<close>

definition fifo_write :: "nat \<Rightarrow> nat \<Rightarrow> 'a list \<Rightarrow> 'a list \<Rightarrow> nat \<Rightarrow> nat \<times> 'a list" where
  "fifo_write C N q d frameCount =
     (let toWrite = min frameCount (C - length q div N)
      in (toWrite, q @ take (toWrite * N) d))"

definition fifo_read :: "nat \<Rightarrow> 'a::zero list \<Rightarrow> 'a list \<Rightarrow> nat \<Rightarrow> nat \<times> 'a list \<times> 'a list" where
  "fifo_read N q d frameCount =
     (let toRead = min frameCount (length q div N)
      in (toRead,
          take (toRead * N) q @ replicate ((frameCount - toRead) * N) 0 @ drop (frameCount * N) d,
          drop (toRead * N) q))"

fun fifo_run :: "nat \<Rightarrow> nat \<Rightarrow> 'a::zero list \<Rightarrow> 'a op list \<Rightarrow> 'a outcome list" where
  "fifo_run C N q [] = []"
| "fifo_run C N q (OpWrite d frameCount # ops) =
     (case fifo_write C N q d (unat frameCount) of
        (n, q') \<Rightarrow> Wrote (of_nat n) # fifo_run C N q' ops)"
| "fifo_run C N q (OpRead d frameCount # ops) =
     (case fifo_read N q d (unat frameCount) of
        (n, d', q') \<Rightarrow> ReadOut (of_nat n) (Ptr d') # fifo_run C N q' ops)"
| "fifo_run C N q (OpAvailable # ops) = Count (of_nat (length q div N)) # fifo_run C N q ops"
| "fifo_run C N q (OpFree # ops) = Count (of_nat (C - length q div N)) # fifo_run C N q ops"

subsection \<open>Reachable states\<close>

text \<open>
  \<open>reach request channels b tw tr\<close>: the buffer state \<open>b\<close> is reached from
  \<open>AudioRingBuffer_Create request channels\<close> by calls of reset, write, read, peek and
  skip that return without a fault. The ghost counters \<open>tw\<close> and \<open>tr\<close> are the numbers
  of frames written and consumed since the buffer was created or last reset.
\<close>

inductive reach :: "32 word \<Rightarrow> 32 word \<Rightarrow> 'a::zero AudioRingBuffer \<Rightarrow> nat \<Rightarrow> nat \<Rightarrow> bool"
  for request channels where
  reach_create:
    "AudioRingBuffer_Create malloc_ok calloc_ok request channels = Some (Ptr b)
       \<Longrightarrow> reach request channels b 0 0"
| reach_reset:
    "reach request channels b tw tr \<Longrightarrow> AudioRingBuffer_Reset (Ptr b) = Inr (Ptr b')
       \<Longrightarrow> reach request channels b' 0 0"
| reach_write:
    "reach request channels b tw tr \<Longrightarrow> AudioRingBuffer_Write (Ptr b) data frameCount = Inr (n, Ptr b')
       \<Longrightarrow> reach request channels b' (tw + unat n) tr"
| reach_read:
    "reach request channels b tw tr \<Longrightarrow> AudioRingBuffer_Read (Ptr b) data frameCount = Inr (n, Ptr b', data')
       \<Longrightarrow> reach request channels b' tw (tr + unat n)"
| reach_peek:
    "reach request channels b tw tr \<Longrightarrow> AudioRingBuffer_Peek (Ptr b) data frameCount = Inr (n, Ptr b', data')
       \<Longrightarrow> reach request channels b' tw tr"
| reach_skip:
    "reach request channels b tw tr \<Longrightarrow> AudioRingBuffer_Skip (Ptr b) frameCount = Ptr b'
       \<Longrightarrow> reach request channels b' tw
             (tr + unat (min frameCount (AudioRingBuffer_GetAvailableFrames (Ptr b))))"

text \<open>What holds in every reachable state (lemma \<open>reach_reach_inv\<close>).\<close>

definition reach_inv :: "32 word \<Rightarrow> 32 word \<Rightarrow> 'a AudioRingBuffer \<Rightarrow> nat \<Rightarrow> nat \<Rightarrow> bool" where
  "reach_inv request channels b tw tr \<longleftrightarrow>
     wf b \<and> channelCount b = channels
     \<and> smallest_pow2_ge (unat (bufferSize b)) (unat request)
     \<and> writeIndex b = of_nat tw \<and> readIndex b = of_nat tr
     \<and> tr \<le> tw \<and> tw - tr \<le> unat (bufferSize b)"

subsection \<open>Test data\<close>

text \<open>\<open>ramp i n\<close>: the \<open>n\<close> two-channel frames \<open>[i, -i], [i + 1, -(i + 1)], \<dots>\<close>.\<close>

primrec ramp :: "nat \<Rightarrow> nat \<Rightarrow> int list" where
  "ramp i 0 = []"
| "ramp i (Suc n) = int i # - int i # ramp (Suc i) n"

section \<open>Loops and arrays\<close>

text \<open>
  \<open>copy_frame\<close> either copies its block or faults, and it faults exactly when the
  block leaves one of the two arrays; a loop of frame copies that stays inside both
  arrays is \<open>copy_frames\<close>.
\<close>

lemma length_copy_block [simp]: "length (copy_block src so dof n dst) = length dst"
  by (simp add: copy_block_def)

lemma nth_copy_block:
  "k < length dst \<Longrightarrow>
   copy_block src so dof n dst ! k = (if dof \<le> k \<and> k < dof + n then src ! (so + (k - dof)) else dst ! k)"
  by (simp add: copy_block_def)

lemma copy_frame_ok:
  assumes "channels = 0 \<or> (so + channels \<le> length src \<and> dof + channels \<le> length dst)"
  shows "copy_frame src so dof channels dst = Inr (copy_block src so dof channels dst)"
  using assms unfolding copy_frame_def
proof (induction channels)
  case 0
  show ?case by (auto simp: copy_block_def intro!: nth_equalityI)
next
  case (Suc n)
  then have b: "so + Suc n \<le> length src" "dof + Suc n \<le> length dst" by auto
  then have IH: "for_loop n (\<lambda>ch d. case load src (so + ch) of Inl e \<Rightarrow> Inl e | Inr v \<Rightarrow> store_at d (dof + ch) v) dst
     = Inr (copy_block src so dof n dst)"
    using Suc.IH by auto
  have "(copy_block src so dof n dst)[dof + n := src ! (so + n)] = copy_block src so dof (Suc n) dst"
  proof (rule nth_equalityI)
    fix i assume "i < length ((copy_block src so dof n dst)[dof + n := src ! (so + n)])"
    then have i: "i < length dst" by simp
    show "(copy_block src so dof n dst)[dof + n := src ! (so + n)] ! i = copy_block src so dof (Suc n) dst ! i"
    proof (cases "i = dof + n")
      case True
      with i show ?thesis by (simp add: nth_copy_block)
    next
      case False
      with i show ?thesis by (simp add: nth_copy_block nth_list_update) 
    qed
  qed simp
  with b IH show ?case
    by (simp add: load_def store_at_def)
qed

lemma copy_frame_fault:
  assumes "channels \<noteq> 0" "\<not> (so + channels \<le> length src \<and> dof + channels \<le> length dst)"
  shows "copy_frame src so dof channels dst = Inl OutOfBounds"
  using assms unfolding copy_frame_def
proof (induction channels)
  case 0 then show ?case by simp
next
  case (Suc n)
  show ?case
  proof (cases "n = 0 \<or> (so + n \<le> length src \<and> dof + n \<le> length dst)")
    case True
    then have "for_loop n (\<lambda>ch d. case load src (so + ch) of Inl e \<Rightarrow> Inl e | Inr v \<Rightarrow> store_at d (dof + ch) v) dst
     = Inr (copy_block src so dof n dst)"
      using copy_frame_ok[of n so src dof dst] by (simp add: copy_frame_def)
    with Suc.prems True show ?thesis
      by (auto simp: load_def store_at_def)
  next
    case False
    with Suc.IH show ?thesis by simp
  qed
qed

lemma length_copy_frames [simp]: "length (copy_frames n src q p cc dst) = length dst"
  by (induction n) simp_all

lemma for_loop_copy_frames:
  assumes "cc = 0 \<or> (\<forall>i<n. q i + cc \<le> length src \<and> p i + cc \<le> length dst)"
  shows "for_loop n (\<lambda>i. copy_frame src (q i) (p i) cc) dst = Inr (copy_frames n src q p cc dst)"
  using assms
proof (induction n)
  case 0 show ?case by simp
next
  case (Suc n)
  then have "for_loop n (\<lambda>i. copy_frame src (q i) (p i) cc) dst = Inr (copy_frames n src q p cc dst)"
    by auto
  moreover have "copy_frame src (q n) (p n) cc (copy_frames n src q p cc dst)
      = Inr (copy_block src (q n) (p n) cc (copy_frames n src q p cc dst))"
    using Suc.prems by (intro copy_frame_ok) auto
  ultimately show ?case by simp
qed

lemma copy_frames_miss:
  assumes "\<forall>i<n. \<not> (p i \<le> k \<and> k < p i + cc)" "k < length dst"
  shows "copy_frames n src q p cc dst ! k = dst ! k"
  using assms
proof (induction n)
  case 0 show ?case by simp
next
  case (Suc n)
  then show ?case by (auto simp: nth_copy_block less_Suc_eq)
qed

lemma copy_frames_hit:
  assumes "i < n" "ch < cc" "p i + cc \<le> length dst"
    and "\<forall>j<n. j \<noteq> i \<longrightarrow> p j + cc \<le> p i \<or> p i + cc \<le> p j"
  shows "copy_frames n src q p cc dst ! (p i + ch) = src ! (q i + ch)"
  using assms
proof (induction n)
  case 0 then show ?case by simp
next
  case (Suc n)
  show ?case
  proof (cases "i = n")
    case True
    with Suc.prems show ?thesis by (simp add: nth_copy_block)
  next
    case False
    with Suc.prems have "i < n" by simp
    moreover from Suc.prems False have "p n + cc \<le> p i \<or> p i + cc \<le> p n" by auto
    ultimately show ?thesis using Suc by (auto simp: nth_copy_block)
  qed
qed

subsection \<open>Store positions\<close>

text \<open>
  With a capacity \<open>2 ^ k\<close> the masked 64-bit sum is the cursor plus \<open>i\<close> modulo the
  capacity, whatever the cursor, and the 64-bit offset arithmetic is exact.
\<close>

lemma ucast_mask32_64: "k < 32 \<Longrightarrow> (ucast ((2 ^ k :: 32 word) - 1) :: 64 word) = mask k"
proof -
  assume k: "k < 32"
  have "((2 ^ k :: 32 word) - 1) = mask k" by (simp add: mask_eq_exp_minus_1)
  then show ?thesis using k
    by (simp add: ucast_mask_eq)
qed

lemma unat_bufferPos:
  assumes "k < 32"
  shows "unat (bufferPos idx i ((2 ^ k :: 32 word) - 1)) = (unat idx + i) mod 2 ^ k"
proof -
  have dvd: "(2::nat) ^ k dvd 2 ^ 64"
    using assms by (intro le_imp_power_dvd) simp
  have "unat (bufferPos idx i ((2 ^ k :: 32 word) - 1)) = unat (ucast (take_bit k (idx + of_nat i)) :: 32 word)"
    by (simp add: bufferPos_def ucast_mask32_64[OF assms] take_bit_eq_mask)
  also have "\<dots> = take_bit k (unat (idx + of_nat i))"
    using assms by (simp add: unsigned_ucast_eq unsigned_take_bit_eq min_def)
  also have "\<dots> = ((unat idx + i mod 2 ^ 64) mod 2 ^ 64) mod 2 ^ k"
    by (simp add: take_bit_eq_mod unat_word_ariths unat_of_nat)
  also have "\<dots> = (unat idx + i) mod 2 ^ k"
    using dvd by (simp add: mod_mod_cancel mod_add_right_eq)
  finally show ?thesis .
qed

lemma size_t_offset_exact:
  fixes pos channels ch :: "32 word"
  shows "unat ((ucast pos :: 64 word) * ucast channels + ucast ch) = unat pos * unat channels + unat ch"
proof -
  have p: "unat pos \<le> 2 ^ 32 - 1" "unat channels \<le> 2 ^ 32 - 1" "unat ch \<le> 2 ^ 32 - 1"
    using unsigned_less[of pos, where 'a=nat] unsigned_less[of channels, where 'a=nat] unsigned_less[of ch, where 'a=nat] by simp_all
  then have "unat pos * unat channels \<le> (2 ^ 32 - 1) * (2 ^ 32 - 1)"
    by (intro mult_le_mono)
  with p have lt: "unat pos * unat channels + unat ch < 2 ^ 64" by simp
  have u: "unat (ucast w :: 64 word) = unat w" for w :: "32 word"
    by (simp add: unsigned_ucast_eq take_bit_nat_eq_self_iff order_less_trans[OF unsigned_less])
  from lt have "unat pos * unat channels < 2 ^ 64" by simp
  then have m: "unat ((ucast pos :: 64 word) * ucast channels) = unat pos * unat channels"
    using unat_mult_lem[of "ucast pos :: 64 word" "ucast channels"] by (simp add: u)
  show ?thesis
    using lt unat_add_lem[of "(ucast pos :: 64 word) * ucast channels" "ucast ch"] by (simp add: u m)
qed

subsection \<open>Frames as blocks of the store\<close>

lemma block_index:
  fixes a b c N :: nat
  assumes "c < N" "b * N \<le> a * N + c" "a * N + c < b * N + N"
  shows "a = b"
proof -
  from assms have "a * N < Suc b * N" by simp
  then have "a < Suc b" by (simp only: mult_less_cancel2)
  moreover from assms have "b * N < Suc a * N" by simp
  then have "b < Suc a" by (simp only: mult_less_cancel2)
  ultimately show ?thesis by simp
qed

lemma block_disjoint:
  fixes a b N :: nat
  assumes "a \<noteq> b"
  shows "a * N + N \<le> b * N \<or> b * N + N \<le> a * N"
proof (cases "a < b")
  case True
  then have "Suc a * N \<le> b * N" by (intro mult_le_mono1) simp
  then show ?thesis by simp
next
  case False
  with assms have "Suc b * N \<le> a * N" by (intro mult_le_mono1) simp
  then show ?thesis by simp
qed

lemma ring_pos_inj_le:
  fixes R C j j' :: nat
  assumes "(R + j) mod C = (R + j') mod C" "j \<le> j'" "j' < C"
  shows "j = j'"
proof -
  have "R + j \<le> R + j'" using assms by simp
  from mod_eq_dvd_iff_nat[OF this, of C] assms(1)
  have "C dvd (R + j') - (R + j)" by simp
  then have "C dvd j' - j" by simp
  moreover have "j' - j < C" using assms by simp
  ultimately have "j' - j = 0"
    using nat_dvd_not_less by blast
  with assms show ?thesis by simp
qed

lemma ring_pos_inj:
  fixes R C j j' :: nat
  assumes "(R + j) mod C = (R + j') mod C" "j < C" "j' < C"
  shows "j = j'"
proof (cases "j \<le> j'")
  case True
  with assms show ?thesis by (intro ring_pos_inj_le[of R j C j']) simp_all
next
  case False
  with assms have "j' = j" by (intro ring_pos_inj_le[of R j' C j]) simp_all
  then show ?thesis by simp
qed

subsection \<open>The ring read as a list\<close>

lemma length_ring_view [simp]: "length (ring_view st R C N len) = len"
  by (simp add: ring_view_def)

lemma nth_ring_view: "m < len \<Longrightarrow> ring_view st R C N len ! m = st ! (((R + m div N) mod C) * N + m mod N)"
  by (simp add: ring_view_def)

lemma ring_view_cong_pos:
  assumes "(R mod C) = (R' mod C)"
  shows "ring_view st R C N len = ring_view st R' C N len"
proof -
  have "(R + x) mod C = (R' + x) mod C" for x
    using assms by (metis mod_add_left_eq)
  then show ?thesis by (simp add: ring_view_def)
qed

lemma ring_view_drop:
  assumes "n * N \<le> len"
  shows "drop (n * N) (ring_view st R C N len) = ring_view st (R + n) C N (len - n * N)"
proof (rule nth_equalityI)
  show "length (drop (n * N) (ring_view st R C N len)) = length (ring_view st (R + n) C N (len - n * N))"
    by simp
next
  fix m assume "m < length (drop (n * N) (ring_view st R C N len))"
  then have m: "m < len - n * N" by simp
  show "drop (n * N) (ring_view st R C N len) ! m = ring_view st (R + n) C N (len - n * N) ! m"
  proof (cases "N = 0")
    case True
    with m assms show ?thesis by (simp add: nth_ring_view)
  next
    case False
    then have "(n * N + m) div N = n + m div N" "(n * N + m) mod N = m mod N"
      by simp_all
    with m assms show ?thesis by (simp add: nth_ring_view add.assoc)
  qed
qed

lemma ring_view_take:
  assumes "k \<le> len"
  shows "take k (ring_view st R C N len) = ring_view st R C N k"
  using assms by (simp add: ring_view_def take_map)

lemma ring_read:
  assumes "n * N \<le> length d"
  shows "copy_frames n st (\<lambda>i. ((R + i) mod C) * N) (\<lambda>i. i * N) N d
           = ring_view st R C N (n * N) @ drop (n * N) d"
proof (rule nth_equalityI)
  show "length (copy_frames n st (\<lambda>i. ((R + i) mod C) * N) (\<lambda>i. i * N) N d)
          = length (ring_view st R C N (n * N) @ drop (n * N) d)"
    using assms by simp
next
  fix m assume "m < length (copy_frames n st (\<lambda>i. ((R + i) mod C) * N) (\<lambda>i. i * N) N d)"
  then have m: "m < length d" by simp
  show "copy_frames n st (\<lambda>i. ((R + i) mod C) * N) (\<lambda>i. i * N) N d ! m
          = (ring_view st R C N (n * N) @ drop (n * N) d) ! m"
  proof (cases "m < n * N")
    case True
    then have N: "0 < N" by (cases N) simp_all
    define i c where "i = m div N" and "c = m mod N"
    have mi: "m = i * N + c" by (simp add: i_def c_def)
    have c: "c < N" using N by (simp add: c_def)
    have i: "i < n" using True N by (simp add: i_def less_mult_imp_div_less)
    have "Suc i * N \<le> n * N" using i by (intro mult_le_mono1) simp
    then have fit: "i * N + N \<le> length d" using assms by simp
    have "copy_frames n st (\<lambda>i. ((R + i) mod C) * N) (\<lambda>i. i * N) N d ! (i * N + c)
            = st ! (((R + i) mod C) * N + c)"
      using copy_frames_hit[where p = "\<lambda>i. i * N" and q = "\<lambda>i. ((R + i) mod C) * N"
          and i = i and n = n and ch = c and cc = N and dst = d and src = st]
        i c fit by (simp add: block_disjoint)
    with True show ?thesis
      by (simp add: nth_append nth_ring_view mi[symmetric] i_def c_def)
  next
    case False
    have "\<forall>i<n. \<not> (i * N \<le> m \<and> m < i * N + N)"
    proof (intro allI impI)
      fix i assume "i < n"
      then have "Suc i * N \<le> n * N" by (intro mult_le_mono1) simp
      with False show "\<not> (i * N \<le> m \<and> m < i * N + N)" by simp
    qed
    then have "copy_frames n st (\<lambda>i. ((R + i) mod C) * N) (\<lambda>i. i * N) N d ! m = d ! m"
      using m by (rule copy_frames_miss)
    with False m assms show ?thesis
      by (simp add: nth_append)
  qed
qed

lemma ring_write:
  assumes "A + n \<le> C" "length st = C * N" "n * N \<le> length d"
  shows "ring_view (copy_frames n d (\<lambda>i. i * N) (\<lambda>i. ((R + A + i) mod C) * N) N st) R C N ((A + n) * N)
           = ring_view st R C N (A * N) @ take (n * N) d"
    (is "ring_view ?st' R C N _ = _")
proof (rule nth_equalityI)
  show "length (ring_view ?st' R C N ((A + n) * N)) = length (ring_view st R C N (A * N) @ take (n * N) d)"
    using assms by (simp add: add_mult_distrib)
next
  fix m assume "m < length (ring_view ?st' R C N ((A + n) * N))"
  then have m: "m < (A + n) * N" by simp
  then have N: "0 < N" by (cases N) simp_all
  define j c where "j = m div N" and "c = m mod N"
  have mj: "m = j * N + c" by (simp add: j_def c_def)
  have c: "c < N" using N by (simp add: c_def)
  have j: "j < A + n" using m N by (simp add: j_def less_mult_imp_div_less)
  have C: "0 < C" using j assms by simp
  have pos: "(R + x) mod C < C" for x using C by simp
  have inb: "((R + x) mod C) * N + N \<le> length st" for x
  proof -
    have "Suc ((R + x) mod C) * N \<le> C * N" using pos[of x] by (intro mult_le_mono1) simp
    then show ?thesis using assms by simp
  qed
  have lhs: "ring_view ?st' R C N ((A + n) * N) ! m = ?st' ! (((R + j) mod C) * N + c)"
    using m by (simp add: nth_ring_view j_def c_def)
  show "ring_view ?st' R C N ((A + n) * N) ! m = (ring_view st R C N (A * N) @ take (n * N) d) ! m"
  proof (cases "j < A")
    case True
    then have "Suc j * N \<le> A * N" by (intro mult_le_mono1) simp
    then have mA: "m < A * N" using mj c by simp
    have "\<forall>i<n. \<not> (((R + A + i) mod C) * N \<le> ((R + j) mod C) * N + c
                    \<and> ((R + j) mod C) * N + c < ((R + A + i) mod C) * N + N)"
    proof (intro allI impI notI)
      fix i assume i: "i < n" and
        "((R + A + i) mod C) * N \<le> ((R + j) mod C) * N + c
                    \<and> ((R + j) mod C) * N + c < ((R + A + i) mod C) * N + N"
      then have "(R + j) mod C = (R + A + i) mod C"
        using block_index[OF c, of "(R + A + i) mod C" "(R + j) mod C"] by simp
      then have "(R + j) mod C = (R + (A + i)) mod C" by (simp add: add.assoc)
      then have "j = A + i"
        using True i assms by (intro ring_pos_inj[of R j C "A + i"]) simp_all
      with True show False by simp
    qed
    moreover have "((R + j) mod C) * N + c < length st"
      using inb[of j] c by simp
    ultimately have "?st' ! (((R + j) mod C) * N + c) = st ! (((R + j) mod C) * N + c)"
      by (intro copy_frames_miss) simp_all
    with lhs mA show ?thesis
      by (simp add: nth_append nth_ring_view j_def c_def)
  next
    case False
    define i where "i = j - A"
    have i: "i < n" "j = A + i" using False j by (simp_all add: i_def)
    have "A * N \<le> j * N" using False by (intro mult_le_mono1) simp
    then have mA: "\<not> m < A * N" using mj by linarith
    have mi: "m - A * N = i * N + c" using mj i by (simp add: add_mult_distrib)
    have "Suc i * N \<le> n * N" using i by (intro mult_le_mono1) simp
    then have iN: "i * N + c < n * N" using c by simp
    have dis: "\<forall>j'<n. j' \<noteq> i \<longrightarrow>
        ((R + A + j') mod C) * N + N \<le> ((R + A + i) mod C) * N \<or>
        ((R + A + i) mod C) * N + N \<le> ((R + A + j') mod C) * N"
    proof (intro allI impI)
      fix j' assume j': "j' < n" "j' \<noteq> i"
      have "(R + A + j') mod C \<noteq> (R + A + i) mod C"
      proof
        assume "(R + A + j') mod C = (R + A + i) mod C"
        then have "j' = i" using j' i assms by (intro ring_pos_inj[of "R + A" j' C i]) simp_all
        with j' show False by simp
      qed
      then show "((R + A + j') mod C) * N + N \<le> ((R + A + i) mod C) * N \<or>
        ((R + A + i) mod C) * N + N \<le> ((R + A + j') mod C) * N"
        by (rule block_disjoint)
    qed
    have "?st' ! (((R + A + i) mod C) * N + c) = d ! (i * N + c)"
      using copy_frames_hit[where p = "\<lambda>i. ((R + A + i) mod C) * N" and q = "\<lambda>i. i * N"
          and i = i and n = n and ch = c and cc = N and dst = st and src = d]
        i(1) c dis inb[of "A + i"] by (simp add: add.assoc)
    with lhs mA mi iN i show ?thesis
      by (simp add: nth_append add.assoc)
  qed
qed

section \<open>Well-formed buffers\<close>

lemma pow_lt_32: "k < 32 \<Longrightarrow> (2::nat) ^ k < 2 ^ 32"
  by (intro power_strict_increasing) simp_all

lemma unat_pow32: "k < 32 \<Longrightarrow> unat ((2::32 word) ^ k) = 2 ^ k"
proof -
  assume k: "k < 32"
  have "(2::32 word) ^ k = of_nat (2 ^ k)" by simp
  then show ?thesis using pow_lt_32[OF k] by (simp only: unat_of_nat) simp
qed

lemma unat_ucast_32_64: "unat (ucast (x :: 32 word) :: 64 word) = unat x"
  by (simp add: unsigned_ucast_eq take_bit_nat_eq_self_iff order_less_trans[OF unsigned_less])

lemma wf_available_le:
  assumes "wf b"
  shows "available b \<le> unat (bufferSize b)"
  using assms by (simp add: wf_def available_def word_le_nat_alt unat_ucast_32_64)

lemma wf_cap:
  assumes "wf b"
  obtains k where "k < 32" "bufferSize b = 2 ^ k" "unat (bufferSize b) = 2 ^ k"
  using assms unat_pow32 by (auto simp: wf_def)

lemma wf_cap_pos: "wf b \<Longrightarrow> 0 < unat (bufferSize b)"
  by (erule wf_cap) simp

lemma wf_cap_dvd:
  assumes "wf b"
  shows "unat (bufferSize b) dvd 2 ^ 64"
proof -
  from assms obtain k where k: "k < 32" "unat (bufferSize b) = 2 ^ k" by (rule wf_cap)
  have "(2::nat) ^ k dvd 2 ^ 64" using k by (intro le_imp_power_dvd) simp
  with k show ?thesis by simp
qed

lemma unat_GetAvailableFrames:
  assumes "wf b"
  shows "unat (AudioRingBuffer_GetAvailableFrames (Ptr b)) = available b"
proof -
  have "available b \<le> unat (bufferSize b)" using assms by (rule wf_available_le)
  also have "\<dots> < 2 ^ 32" using unsigned_less[of "bufferSize b", where 'a = nat] by simp
  finally show ?thesis
    by (simp add: AudioRingBuffer_GetAvailableFrames_def available_def unsigned_ucast_eq
        take_bit_nat_eq_self_iff)
qed

lemma unat_GetFreeFrames:
  assumes "wf b"
  shows "unat (AudioRingBuffer_GetFreeFrames (Ptr b)) = unat (bufferSize b) - available b"
proof -
  have "AudioRingBuffer_GetAvailableFrames (Ptr b) \<le> bufferSize b"
    using assms wf_available_le[OF assms] by (simp add: word_le_nat_alt unat_GetAvailableFrames)
  then show ?thesis
    using assms by (simp add: AudioRingBuffer_GetFreeFrames_def unat_sub unat_GetAvailableFrames)
qed

lemma wf_bufferPos:
  assumes "wf b"
  shows "unat (bufferPos idx i (bufferSize b - 1)) = (unat idx + i) mod unat (bufferSize b)"
  using assms by (elim wf_cap) (simp add: unat_bufferPos)

lemma mod_cap_cancel:
  fixes C a x :: nat
  assumes "C dvd 2 ^ 64"
  shows "(a mod 2 ^ 64 + x) mod C = (a + x) mod C"
proof -
  have "(a mod 2 ^ 64 + x) mod C = ((a mod 2 ^ 64) mod C + x) mod C"
    by (simp add: mod_add_left_eq)
  also have "\<dots> = (a mod C + x) mod C"
    using assms by (simp add: mod_mod_cancel)
  finally show ?thesis by (simp add: mod_add_left_eq)
qed

lemma unat_writeIndex_mod:
  assumes "wf b"
  shows "(unat (writeIndex b) + x) mod unat (bufferSize b)
           = (unat (readIndex b) + available b + x) mod unat (bufferSize b)"
proof -
  have "writeIndex b = readIndex b + (writeIndex b - readIndex b)" by simp
  then have "unat (writeIndex b) = (unat (readIndex b) + available b) mod 2 ^ 64"
    using unat_word_ariths(1)[of "readIndex b" "writeIndex b - readIndex b"]
    by (simp add: available_def)
  then show ?thesis
    using mod_cap_cancel[OF wf_cap_dvd[OF assms]] by simp
qed

section \<open>What write, read, peek, skip and reset compute\<close>

lemma frames_fit:
  fixes i n N :: nat
  assumes "i < n" "n * N \<le> L"
  shows "i * N + N \<le> L"
proof -
  have "Suc i * N \<le> n * N" using assms by (intro mult_le_mono1) simp
  with assms show ?thesis by simp
qed

lemma wf_store_fit:
  assumes "wf b"
  shows "((x mod unat (bufferSize b)) * unat (channelCount b)) + unat (channelCount b) \<le> length (buffer b)"
proof -
  have "x mod unat (bufferSize b) < unat (bufferSize b)"
    using wf_cap_pos[OF assms] by simp
  moreover have "length (buffer b) = unat (bufferSize b) * unat (channelCount b)"
    using assms by (simp add: wf_def)
  ultimately show ?thesis by (simp add: frames_fit)
qed

lemma Write_Ptr:
  assumes wf: "wf b"
    and len: "unat (framesToWrite b frameCount) * unat (channelCount b) \<le> length d"
  shows "AudioRingBuffer_Write (Ptr b) (Ptr d) frameCount
           = Inr (framesToWrite b frameCount, Ptr (written b d frameCount))"
proof -
  define n where "n = framesToWrite b frameCount"
  have n: "(if frameCount < AudioRingBuffer_GetFreeFrames (Ptr b) then frameCount
            else AudioRingBuffer_GetFreeFrames (Ptr b)) = n"
    by (auto simp: n_def framesToWrite_def min_def)
  have loop: "for_loop (unat n)
          (\<lambda>i. copy_frame d (i * unat (channelCount b))
                  (unat (bufferPos (writeIndex b) i (bufferSize b - 1)) * unat (channelCount b))
                  (unat (channelCount b))) (buffer b)
        = Inr (buffer (written b d frameCount))"
  proof -
    have "unat (channelCount b) = 0 \<or> (\<forall>i<unat n. i * unat (channelCount b) + unat (channelCount b) \<le> length d \<and>
         ((unat (writeIndex b) + i) mod unat (bufferSize b)) * unat (channelCount b) + unat (channelCount b) \<le> length (buffer b))"
      using len wf_store_fit[OF wf] by (simp add: n_def frames_fit)
    from for_loop_copy_frames[OF this] show ?thesis
      by (simp add: wf_bufferPos[OF wf] written_def n_def)
  qed
  show ?thesis
  proof (cases "n = 0")
    case True
    then have "written b d frameCount = b"
      by (simp add: written_def n_def[symmetric])
    with True show ?thesis
      unfolding AudioRingBuffer_Write_def
      by (simp add: n Let_def n_def[symmetric])
  next
    case False
    then have "frameCount \<noteq> 0"
      by (auto simp: n_def framesToWrite_def)
    with False show ?thesis
      unfolding AudioRingBuffer_Write_def
      by (simp add: n Let_def loop) (simp add: written_def n_def[symmetric])
  qed
qed

lemma unat_framesToWrite:
  assumes "wf b"
  shows "unat (framesToWrite b frameCount) = min (unat frameCount) (unat (bufferSize b) - available b)"
  by (simp add: framesToWrite_def min_def word_le_nat_alt unat_GetFreeFrames[OF assms])

lemma available_written:
  assumes "wf b"
  shows "available (written b d frameCount) = available b + unat (framesToWrite b frameCount)"
proof -
  define n where "n = framesToWrite b frameCount"
  have le: "available b + unat n \<le> unat (bufferSize b)"
    using wf_available_le[OF assms] by (simp add: n_def unat_framesToWrite[OF assms])
  also have "\<dots> < 2 ^ 32" using unsigned_less[of "bufferSize b", where 'a = nat] by simp
  finally have lt: "available b + unat n < 2 ^ 64" by simp
  have "writeIndex b + ucast n - readIndex b = (writeIndex b - readIndex b) + ucast n" by simp
  from arg_cong[OF this, of unat]
  have "available (written b d frameCount) = unat ((writeIndex b - readIndex b) + (ucast n :: 64 word))"
    by (simp add: available_def written_def n_def)
  also have "\<dots> = available b + unat n"
    using lt unat_add_lem[of "writeIndex b - readIndex b" "ucast n :: 64 word"]
    by (simp add: available_def unat_ucast_32_64)
  finally show ?thesis by (simp add: n_def)
qed

lemma wf_written:
  assumes "wf b"
  shows "wf (written b d frameCount)"
proof -
  have "available (written b d frameCount) \<le> unat (bufferSize b)"
    using wf_available_le[OF assms]
    by (simp add: available_written[OF assms] unat_framesToWrite[OF assms])
  then have "writeIndex (written b d frameCount) - readIndex (written b d frameCount)
               \<le> ucast (bufferSize (written b d frameCount))"
    by (simp add: available_def word_le_nat_alt unat_ucast_32_64 written_def)
  with assms show ?thesis
    by (simp add: wf_def written_def)
qed

lemma contents_written:
  assumes wf: "wf b"
    and len: "unat (framesToWrite b frameCount) * unat (channelCount b) \<le> length d"
  shows "contents (written b d frameCount)
           = contents b @ take (unat (framesToWrite b frameCount) * unat (channelCount b)) d"
proof -
  define n where "n = unat (framesToWrite b frameCount)"
  define N where "N = unat (channelCount b)"
  define C where "C = unat (bufferSize b)"
  define R where "R = unat (readIndex b)"
  define A where "A = available b"
  have fit: "A + n \<le> C"
    using wf_available_le[OF wf] by (simp add: A_def n_def C_def unat_framesToWrite[OF wf])
  have st: "length (buffer b) = C * N" using wf by (simp add: wf_def C_def N_def)
  have "buffer (written b d frameCount)
          = copy_frames n d (\<lambda>i. i * N) (\<lambda>i. ((R + A + i) mod C) * N) N (buffer b)"
    by (simp add: written_def unat_writeIndex_mod[OF wf] n_def N_def C_def R_def A_def)
  then have "contents (written b d frameCount)
          = ring_view (copy_frames n d (\<lambda>i. i * N) (\<lambda>i. ((R + A + i) mod C) * N) N (buffer b))
              R C N ((A + n) * N)"
    by (simp add: contents_def available_written[OF wf] n_def N_def C_def R_def A_def)
       (simp add: written_def)
  also have "\<dots> = ring_view (buffer b) R C N (A * N) @ take (n * N) d"
    using fit st len by (intro ring_write) (simp_all add: n_def N_def)
  finally show ?thesis
    by (simp add: contents_def n_def N_def C_def R_def A_def)
qed

lemma unat_framesToRead:
  assumes "wf b"
  shows "unat (framesToRead b frameCount) = min (unat frameCount) (available b)"
  by (simp add: framesToRead_def min_def word_le_nat_alt unat_GetAvailableFrames[OF assms])

lemma framesToRead_if:
  "(if frameCount < AudioRingBuffer_GetAvailableFrames (Ptr b) then frameCount
    else AudioRingBuffer_GetAvailableFrames (Ptr b)) = framesToRead b frameCount"
  by (auto simp: framesToRead_def min_def)

lemma available_consumed:
  assumes "wf b"
  shows "available (consumed b frameCount) = available b - unat (framesToRead b frameCount)"
proof -
  define n where "n = framesToRead b frameCount"
  have le: "unat n \<le> available b" by (simp add: n_def unat_framesToRead[OF assms])
  then have "(ucast n :: 64 word) \<le> writeIndex b - readIndex b"
    by (simp add: word_le_nat_alt unat_ucast_32_64 available_def)
  then have "unat ((writeIndex b - readIndex b) - ucast n) = available b - unat n"
    by (simp add: unat_sub unat_ucast_32_64 available_def)
  moreover have "writeIndex b - (readIndex b + ucast n) = (writeIndex b - readIndex b) - ucast n"
    by simp
  from arg_cong[OF this, of unat]
  have "available (consumed b frameCount) = unat ((writeIndex b - readIndex b) - (ucast n :: 64 word))"
    by (simp add: available_def consumed_def n_def)
  ultimately show ?thesis
    by (simp add: n_def)
qed

lemma wf_consumed:
  assumes "wf b"
  shows "wf (consumed b frameCount)"
proof -
  have "available (consumed b frameCount) \<le> unat (bufferSize b)"
    using wf_available_le[OF assms] by (simp add: available_consumed[OF assms])
  then have "writeIndex (consumed b frameCount) - readIndex (consumed b frameCount)
               \<le> ucast (bufferSize (consumed b frameCount))"
    by (simp add: available_def word_le_nat_alt unat_ucast_32_64 consumed_def)
  with assms show ?thesis
    by (simp add: wf_def consumed_def)
qed

lemma contents_consumed:
  assumes wf: "wf b"
  shows "contents (consumed b frameCount)
           = drop (unat (framesToRead b frameCount) * unat (channelCount b)) (contents b)"
proof -
  define n where "n = unat (framesToRead b frameCount)"
  define N where "N = unat (channelCount b)"
  define C where "C = unat (bufferSize b)"
  define R where "R = unat (readIndex b)"
  define A where "A = available b"
  have le: "n \<le> A" by (simp add: n_def A_def unat_framesToRead[OF wf])
  then have nN: "n * N \<le> A * N" by (rule mult_le_mono1)
  have "unat (readIndex (consumed b frameCount)) = (R + n) mod 2 ^ 64"
    using unat_word_ariths(1)[of "readIndex b" "ucast (framesToRead b frameCount) :: 64 word"]
    by (simp add: consumed_def unat_ucast_32_64 R_def n_def)
  then have "unat (readIndex (consumed b frameCount)) mod C = (R + n) mod C"
    using wf_cap_dvd[OF wf] by (simp add: mod_mod_cancel C_def)
  then have "ring_view (buffer b) (unat (readIndex (consumed b frameCount))) C N ((A - n) * N)
               = ring_view (buffer b) (R + n) C N ((A - n) * N)"
    by (rule ring_view_cong_pos)
  then have "contents (consumed b frameCount) = ring_view (buffer b) (R + n) C N ((A - n) * N)"
    unfolding contents_def available_consumed[OF wf]
    by (simp add: consumed_def n_def N_def C_def A_def)
  also have "\<dots> = drop (n * N) (ring_view (buffer b) R C N (A * N))"
    using nN by (simp add: ring_view_drop diff_mult_distrib)
  finally show ?thesis
    by (simp add: contents_def n_def N_def C_def R_def A_def)
qed

lemma memset0_ok:
  assumes "offset + n \<le> length xs" "n * 4 < 2 ^ 64"
  shows "memset0 xs offset ((n * 4) mod 2 ^ 64) = Inr (take offset xs @ replicate n 0 @ drop (offset + n) xs)"
  using assms by (simp add: memset0_def)

lemma Read_Ptr:
  assumes wf: "wf b"
    and len: "unat frameCount * unat (channelCount b) \<le> length d"
    and arr: "length d * 4 < 2 ^ 64"
  shows "AudioRingBuffer_Read (Ptr b) (Ptr d) frameCount
           = Inr (framesToRead b frameCount, Ptr (consumed b frameCount),
                  Ptr (take (unat (framesToRead b frameCount) * unat (channelCount b)) (contents b)
                       @ replicate ((unat frameCount - unat (framesToRead b frameCount)) * unat (channelCount b)) 0
                       @ drop (unat frameCount * unat (channelCount b)) d))"
proof -
  define n where "n = framesToRead b frameCount"
  define N where "N = unat (channelCount b)"
  define F where "F = unat frameCount"
  have nA: "unat n \<le> available b" and nF: "unat n \<le> F"
    by (simp_all add: n_def F_def unat_framesToRead[OF wf])
  have nle: "n \<le> frameCount" using nF by (simp add: word_le_nat_alt F_def)
  have nN: "unat n * N \<le> F * N" using nF by (rule mult_le_mono1)
  have FN: "F * N \<le> length d" using len by (simp add: F_def N_def)
  have view: "ring_view (buffer b) (unat (readIndex b)) (unat (bufferSize b)) N (unat n * N)
                = take (unat n * N) (contents b)"
    using nA by (simp add: contents_def ring_view_take N_def mult_le_mono1)
  have loop: "for_loop (unat n)
          (\<lambda>i. copy_frame (buffer b)
                  (unat (bufferPos (readIndex b) i (bufferSize b - 1)) * N) (i * N) N) d
        = Inr (take (unat n * N) (contents b) @ drop (unat n * N) d)"
  proof -
    have "N = 0 \<or> (\<forall>i<unat n.
         ((unat (readIndex b) + i) mod unat (bufferSize b)) * N + N \<le> length (buffer b)
         \<and> i * N + N \<le> length d)"
    proof (intro disjI2 allI impI conjI)
      fix i assume "i < unat n"
      then have "i * N + N \<le> unat n * N" by (intro frames_fit[of i "unat n"]) simp_all
      with nN FN show "i * N + N \<le> length d" by linarith
      show "((unat (readIndex b) + i) mod unat (bufferSize b)) * N + N \<le> length (buffer b)"
        unfolding N_def by (rule wf_store_fit[OF wf])
    qed
    from for_loop_copy_frames[OF this] show ?thesis
      using nN FN by (simp add: wf_bufferPos[OF wf] ring_read view)
  qed
  show ?thesis
  proof (cases "n = 0")
    case True
    have "memset0 d 0 ((F * N * 4) mod 2 ^ 64) = Inr (take 0 d @ replicate (F * N) 0 @ drop (0 + F * N) d)"
      using FN arr by (intro memset0_ok) simp_all
    moreover have "frameCount = 0 \<Longrightarrow> F = 0" by (simp add: F_def)
    ultimately show ?thesis
      using True unfolding AudioRingBuffer_Read_def Let_def framesToRead_if
      by (auto simp: n_def[symmetric] N_def[symmetric] F_def[symmetric] consumed_def)
  next
    case False
    then have fc: "frameCount \<noteq> 0" by (auto simp: n_def framesToRead_def)
    have rest: "unat (frameCount - n) = F - unat n"
      using nle by (simp add: unat_sub F_def)
    have m: "memset0 (take (unat n * N) (contents b) @ drop (unat n * N) d) (unat n * N)
               (((F - unat n) * N * 4) mod 2 ^ 64)
          = Inr (take (unat n * N) (contents b) @ replicate ((F - unat n) * N) 0 @ drop (F * N) d)"
    proof -
      have l: "length (take (unat n * N) (contents b)) = unat n * N"
        using nA by (simp add: contents_def N_def mult_le_mono1)
      have s: "unat n * N + (F - unat n) * N = F * N"
        using nF by (simp add: add_mult_distrib[symmetric])
      have "memset0 (take (unat n * N) (contents b) @ drop (unat n * N) d) (unat n * N)
               (((F - unat n) * N * 4) mod 2 ^ 64)
          = Inr (take (unat n * N) (take (unat n * N) (contents b) @ drop (unat n * N) d)
                 @ replicate ((F - unat n) * N) 0
                 @ drop (unat n * N + (F - unat n) * N) (take (unat n * N) (contents b) @ drop (unat n * N) d))"
      proof (rule memset0_ok)
        show "unat n * N + (F - unat n) * N
                \<le> length (take (unat n * N) (contents b) @ drop (unat n * N) d)"
          using FN nN l s by simp
        have "(F - unat n) * N \<le> F * N" by (intro mult_le_mono1) simp
        with FN arr show "(F - unat n) * N * 4 < 2 ^ 64" by linarith
      qed
      then show ?thesis using l s nN by simp
    qed
    show ?thesis
    proof (cases "n < frameCount")
      case True
      with False fc m show ?thesis
        unfolding AudioRingBuffer_Read_def Let_def framesToRead_if
        by (simp add: n_def[symmetric] N_def[symmetric] loop rest
            F_def[symmetric] consumed_def)
    next
      case False
      with nle have "n = frameCount" by simp
      then have "F = unat n" by (simp add: F_def)
      with \<open>n \<noteq> 0\<close> fc False show ?thesis
        unfolding AudioRingBuffer_Read_def Let_def framesToRead_if
        by (simp add: n_def[symmetric] N_def[symmetric] loop
            F_def[symmetric] consumed_def)
    qed
  qed
qed

lemma Peek_Ptr:
  assumes wf: "wf b"
    and len: "unat (framesToRead b frameCount) * unat (channelCount b) \<le> length d"
  shows "AudioRingBuffer_Peek (Ptr b) (Ptr d) frameCount
           = Inr (framesToRead b frameCount, Ptr b,
                  Ptr (take (unat (framesToRead b frameCount) * unat (channelCount b)) (contents b)
                       @ drop (unat (framesToRead b frameCount) * unat (channelCount b)) d))"
proof -
  define n where "n = framesToRead b frameCount"
  define N where "N = unat (channelCount b)"
  have nA: "unat n \<le> available b"
    by (simp add: n_def unat_framesToRead[OF wf])
  have nN: "unat n * N \<le> length d" using len by (simp add: n_def N_def)
  have view: "ring_view (buffer b) (unat (readIndex b)) (unat (bufferSize b)) N (unat n * N)
                = take (unat n * N) (contents b)"
    using nA by (simp add: contents_def ring_view_take N_def mult_le_mono1)
  have loop: "for_loop (unat n)
          (\<lambda>i. copy_frame (buffer b)
                  (unat (bufferPos (readIndex b) i (bufferSize b - 1)) * N) (i * N) N) d
        = Inr (take (unat n * N) (contents b) @ drop (unat n * N) d)"
  proof -
    have "N = 0 \<or> (\<forall>i<unat n.
         ((unat (readIndex b) + i) mod unat (bufferSize b)) * N + N \<le> length (buffer b)
         \<and> i * N + N \<le> length d)"
    proof (intro disjI2 allI impI conjI)
      fix i assume "i < unat n"
      then show "i * N + N \<le> length d" using nN by (rule frames_fit)
      show "((unat (readIndex b) + i) mod unat (bufferSize b)) * N + N \<le> length (buffer b)"
        unfolding N_def by (rule wf_store_fit[OF wf])
    qed
    from for_loop_copy_frames[OF this] show ?thesis
      using nN by (simp add: wf_bufferPos[OF wf] ring_read view)
  qed
  show ?thesis
  proof (cases "n = 0")
    case True
    then show ?thesis
      unfolding AudioRingBuffer_Peek_def Let_def framesToRead_if
      by (simp add: n_def[symmetric])
  next
    case False
    then have fc: "frameCount \<noteq> 0" by (auto simp: n_def framesToRead_def)
    with False show ?thesis
      unfolding AudioRingBuffer_Peek_def Let_def framesToRead_if
      by (simp add: n_def[symmetric] N_def[symmetric] loop)
  qed
qed

lemma Skip_Ptr: "AudioRingBuffer_Skip (Ptr b) frameCount = Ptr (consumed b frameCount)"
proof (cases "framesToRead b frameCount = 0")
  case True
  then have "consumed b frameCount = b" by (simp add: consumed_def)
  with True show ?thesis
    unfolding AudioRingBuffer_Skip_def Let_def framesToRead_if by simp
next
  case False
  then have "frameCount \<noteq> 0" by (auto simp: framesToRead_def)
  with False show ?thesis
    unfolding AudioRingBuffer_Skip_def Let_def framesToRead_if
    by (simp add: consumed_def word_neq_0_conv)
qed

lemma Reset_Ptr:
  assumes wf: "wf b"
  shows "AudioRingBuffer_Reset (Ptr b)
           = Inr (Ptr (b\<lparr>writeIndex := 0, readIndex := 0,
                          buffer := replicate (unat (bufferSize b) * unat (channelCount b)) 0\<rparr>))"
proof -
  define T where "T = unat (bufferSize b) * unat (channelCount b)"
  have T: "length (buffer b) = T" "T * 4 < 2 ^ 64" using wf by (simp_all add: wf_def T_def)
  then have "memset0 (buffer b) 0 ((T * 4) mod 2 ^ 64)
               = Inr (take 0 (buffer b) @ replicate T 0 @ drop (0 + T) (buffer b))"
    by (intro memset0_ok) simp_all
  with T have "memset0 (buffer b) 0 ((T * 4) mod 2 ^ 64) = Inr (replicate T 0)"
    by simp
  then show ?thesis
    unfolding AudioRingBuffer_Reset_def Let_def T_def by simp
qed

section \<open>The rounding loop\<close>

text \<open>
  Started at 1 the loop stops at the first power of two that reaches the request, if the
  request is at most \<open>2 ^ 31\<close>; above that the counter wraps to 0 and the loop runs
  forever.
\<close>

lemma round_up_loop_pow:
  assumes "n \<le> 2 ^ 31" "j \<le> 31" "j = 0 \<or> (2::32 word) ^ (j - 1) < n"
  shows "\<exists>k. j \<le> k \<and> k \<le> 31 \<and> round_up_loop (2 ^ j) n = Some (2 ^ k) \<and> n \<le> 2 ^ k
             \<and> (k = 0 \<or> (2::32 word) ^ (k - 1) < n)"
  using assms
proof (induction "31 - j" arbitrary: j)
  case 0
  then have j: "j = 31" by simp
  then have "\<not> (2::32 word) ^ j < n" using 0 by (simp add: not_less)
  then have "round_up_loop (2 ^ j) n = Some (2 ^ j)"
    by (subst round_up_loop.simps) simp
  with 0 j show ?case by (intro exI[of _ j]) (simp add: not_less)
next
  case (Suc d)
  show ?case
  proof (cases "(2::32 word) ^ j < n")
    case True
    have "d = 31 - Suc j" "Suc j \<le> 31" using Suc.hyps by simp_all
    moreover have "Suc j = 0 \<or> (2::32 word) ^ (Suc j - 1) < n" using True by simp
    ultimately obtain k where k: "Suc j \<le> k" "k \<le> 31" "round_up_loop (2 ^ Suc j) n = Some (2 ^ k)"
        "n \<le> 2 ^ k" "k = 0 \<or> (2::32 word) ^ (k - 1) < n"
      using Suc.hyps(1)[of "Suc j"] Suc.prems(1) by blast
    have "round_up_loop (2 ^ j) n = round_up_loop (push_bit 1 (2 ^ j)) n"
      using True by (subst round_up_loop.simps) simp
    also have "push_bit 1 ((2::32 word) ^ j) = 2 ^ Suc j"
      by (simp add: push_bit_eq_mult)
    finally show ?thesis using k by (intro exI[of _ k]) simp
  next
    case False
    then have "round_up_loop (2 ^ j) n = Some (2 ^ j)"
      by (subst round_up_loop.simps) simp
    with False Suc.prems show ?thesis by (intro exI[of _ j]) (simp add: not_less)
  qed
qed

lemma round_up_loop_1:
  assumes "n \<le> 2 ^ 31"
  obtains k where "k \<le> 31" "round_up_loop 1 n = Some (2 ^ k)" "n \<le> 2 ^ k"
     "k = 0 \<or> (2::32 word) ^ (k - 1) < n"
  using round_up_loop_pow[OF assms, of 0] by auto

lemma push_bit_1_le: "(push_bit j 1 :: 32 word) \<le> 2 ^ 31"
proof (cases "j < 32")
  case True
  then have "(2::nat) ^ j \<le> 2 ^ 31"
    by (intro power_increasing) simp_all
  with True have "unat ((2::32 word) ^ j) \<le> 2 ^ 31"
    by (simp only: unat_pow32)
  then show ?thesis by (simp add: push_bit_eq_mult word_le_nat_alt)
next
  case False
  then have z: "(2::32 word) ^ j = 0"
    by simp
  show ?thesis unfolding push_bit_eq_mult z by simp
qed

lemma round_up_loop_diverges_aux:
  assumes "round_up_loop p n = Some y"
  shows "\<not> (2 ^ 31 < n \<and> (\<exists>j. p = push_bit j 1))"
proof (rule round_up_loop.raw_induct[where P = "\<lambda>p n y. \<not> (2 ^ 31 < n \<and> (\<exists>j. p = push_bit j 1))",
      OF _ assms])
  fix f and p n y :: "32 word"
  assume IH: "\<And>p n y. f p n = Some y \<Longrightarrow> \<not> (2 ^ 31 < n \<and> (\<exists>j. p = push_bit j 1))"
    and step: "(if p < n then f (push_bit 1 p) n else Some p) = Some y"
  show "\<not> (2 ^ 31 < n \<and> (\<exists>j. p = push_bit j 1))"
  proof
    assume a: "2 ^ 31 < n \<and> (\<exists>j. p = push_bit j 1)"
    then obtain j where j: "p = push_bit j 1" by blast
    have "p \<le> 2 ^ 31" unfolding j by (rule push_bit_1_le)
    from order_le_less_trans[OF this] a have "p < n" by blast
    with step have "f (push_bit 1 p) n = Some y" by simp
    moreover have "push_bit 1 p = push_bit (Suc j) 1"
      unfolding j by (simp add: push_bit_eq_mult)
    ultimately show False using IH[of "push_bit 1 p" n y] a by blast
  qed
qed

lemma round_up_loop_diverges:
  assumes "2 ^ 31 < n"
  shows "round_up_loop 1 n = None"
proof (cases "round_up_loop 1 n")
  case (Some y)
  have "\<exists>j. (1::32 word) = push_bit j 1" by (intro exI[of _ 0]) simp
  with round_up_loop_diverges_aux[OF Some] assms show ?thesis by blast
qed simp

section \<open>Degenerate input\<close>

text \<open>
  Claim C10. In the C interface every operation is a guarded no-op on degenerate input:
  when the buffer pointer is null, the data pointer is null or \<open>frameCount\<close> is 0,
  write, read and peek return 0 and leave the buffer and the caller's array as they were
  (so a read of 0 frames does no silence fill), and skip, which takes no data pointer,
  returns without effect when the buffer pointer is null or \<open>frameCount\<close> is 0. No fault
  is possible on these paths.
\<close>

theorem degenerate_input_guards:
  assumes "p = NULL \<or> data = NULL \<or> frameCount = 0"
  shows "AudioRingBuffer_Write p data frameCount = Inr (0, p)
       \<and> AudioRingBuffer_Read p data frameCount = Inr (0, p, data)
       \<and> AudioRingBuffer_Peek p data frameCount = Inr (0, p, data)
       \<and> (p = NULL \<or> frameCount = 0 \<longrightarrow> AudioRingBuffer_Skip p frameCount = p)"
  using assms
  by (auto simp: AudioRingBuffer_Write_def AudioRingBuffer_Read_def AudioRingBuffer_Peek_def
      AudioRingBuffer_Skip_def split: ptr.splits)

theorem degenerate_input_guards_witness:
  "AudioRingBuffer_Write (Ptr \<lparr>buffer = [5, 6 :: int], bufferSize = 2, channelCount = 1,
                              writeIndex = 1, readIndex = 0\<rparr>) NULL 2
     = Inr (0, Ptr \<lparr>buffer = [5, 6], bufferSize = 2, channelCount = 1, writeIndex = 1, readIndex = 0\<rparr>)
   \<and> AudioRingBuffer_Read (Ptr \<lparr>buffer = [5, 6 :: int], bufferSize = 2, channelCount = 1,
                                writeIndex = 1, readIndex = 0\<rparr>) (Ptr [7, 8]) 0
     = Inr (0, Ptr \<lparr>buffer = [5, 6], bufferSize = 2, channelCount = 1, writeIndex = 1, readIndex = 0\<rparr>,
            Ptr [7, 8])
   \<and> AudioRingBuffer_Peek (NULL :: int AudioRingBuffer ptr) (Ptr [7, 8]) 2 = Inr (0, NULL, Ptr [7, 8])
   \<and> AudioRingBuffer_Skip (NULL :: int AudioRingBuffer ptr) 2 = NULL"
  using degenerate_input_guards[of "Ptr \<lparr>buffer = [5, 6 :: int], bufferSize = 2, channelCount = 1,
                              writeIndex = 1, readIndex = 0\<rparr>" NULL 2]
    degenerate_input_guards[of "Ptr \<lparr>buffer = [5, 6 :: int], bufferSize = 2, channelCount = 1,
                              writeIndex = 1, readIndex = 0\<rparr>" "Ptr [7, 8]" 0]
    degenerate_input_guards[of "NULL :: int AudioRingBuffer ptr" "Ptr [7, 8]" 2]
  by simp

section \<open>The C++ class does what the C interface does\<close>

lemma of_c_c_view [simp]: "of_c x (c_view x) = x"
  by (simp add: of_c_def c_view_def)

lemma hpp_counts:
  "hpp_availableFrames x = AudioRingBuffer_GetAvailableFrames (Ptr (c_view x))"
  "hpp_freeFrames x = AudioRingBuffer_GetFreeFrames (Ptr (c_view x))"
  by (simp_all add: hpp_availableFrames_def hpp_freeFrames_def AudioRingBuffer_GetAvailableFrames_def
      AudioRingBuffer_GetFreeFrames_def c_view_def)

lemma hpp_write_sim:
  assumes "mBufferMask x = mBufferSize x - 1"
  shows "hpp_write x d frameCount =
           (case AudioRingBuffer_Write (Ptr (c_view x)) (Ptr d) frameCount of
              Inl e \<Rightarrow> Inl e
            | Inr (n, p) \<Rightarrow> (case p of NULL \<Rightarrow> Inr (n, x) | Ptr b' \<Rightarrow> Inr (n, of_c x b')))"
proof -
  have sel: "buffer (c_view x) = mBuffer x" "bufferSize (c_view x) = mBufferSize x"
    "channelCount (c_view x) = mChannelCount x" "writeIndex (c_view x) = mWriteIndex x"
    "readIndex (c_view x) = mReadIndex x"
    by (simp_all add: c_view_def)
  show ?thesis
    unfolding hpp_write_def AudioRingBuffer_Write_def Let_def hpp_counts sel assms
    by (auto simp: of_c_def c_view_def word_neq_0_conv[symmetric] split: sum.splits)
qed

lemma hpp_read_sim:
  assumes "mBufferMask x = mBufferSize x - 1"
  shows "hpp_read x d frameCount =
           (case AudioRingBuffer_Read (Ptr (c_view x)) (Ptr d) frameCount of
              Inl e \<Rightarrow> Inl e
            | Inr (n, p, p') \<Rightarrow>
                (case (p, p') of (Ptr b', Ptr d') \<Rightarrow> Inr (n, of_c x b', d') | _ \<Rightarrow> Inr (n, x, d)))"
proof -
  have sel: "buffer (c_view x) = mBuffer x" "bufferSize (c_view x) = mBufferSize x"
    "channelCount (c_view x) = mChannelCount x" "writeIndex (c_view x) = mWriteIndex x"
    "readIndex (c_view x) = mReadIndex x"
    by (simp_all add: c_view_def)
  have z: "memset0 d 0 0 = Inr d" by (simp add: memset0_def)
  show ?thesis
    unfolding hpp_read_def AudioRingBuffer_Read_def Let_def hpp_counts sel assms
    by (auto simp: of_c_def c_view_def z word_neq_0_conv[symmetric] split: sum.splits)
qed

lemma hpp_reset_sim:
  "hpp_reset x =
     (case AudioRingBuffer_Reset (Ptr (c_view x)) of
        Inl e \<Rightarrow> Inl e
      | Inr p \<Rightarrow> (case p of NULL \<Rightarrow> Inr x | Ptr b' \<Rightarrow> Inr (of_c x b')))"
  unfolding hpp_reset_def AudioRingBuffer_Reset_def Let_def
  by (auto simp: of_c_def c_view_def word_neq_0_conv[symmetric] split: sum.splits)

section \<open>Pointwise facts\<close>

lemma nth_contents:
  assumes "j < available b" "c < unat (channelCount b)"
  shows "contents b ! (j * unat (channelCount b) + c)
           = buffer b ! (((unat (readIndex b) + j) mod unat (bufferSize b)) * unat (channelCount b) + c)"
proof -
  have "Suc j * unat (channelCount b) \<le> available b * unat (channelCount b)"
    using assms by (intro mult_le_mono1) simp
  then have "j * unat (channelCount b) + c < available b * unat (channelCount b)"
    using assms by simp
  then show ?thesis using assms
    by (simp add: contents_def nth_ring_view)
qed

lemma length_contents [simp]: "length (contents b) = available b * unat (channelCount b)"
  by (simp add: contents_def)

lemma framesToWrite_le:
  "unat (framesToWrite b frameCount) \<le> unat frameCount"
  by (simp add: framesToWrite_def min_def word_le_nat_alt)

lemma framesToRead_le:
  "unat (framesToRead b frameCount) \<le> unat frameCount"
  by (simp add: framesToRead_def min_def word_le_nat_alt)

lemma written_sel [simp]:
  "readIndex (written b d frameCount) = readIndex b"
  "bufferSize (written b d frameCount) = bufferSize b"
  "channelCount (written b d frameCount) = channelCount b"
  "writeIndex (written b d frameCount) = writeIndex b + ucast (framesToWrite b frameCount)"
  "length (buffer (written b d frameCount)) = length (buffer b)"
  by (simp_all add: written_def)

lemma consumed_sel [simp]:
  "writeIndex (consumed b frameCount) = writeIndex b"
  "bufferSize (consumed b frameCount) = bufferSize b"
  "channelCount (consumed b frameCount) = channelCount b"
  "readIndex (consumed b frameCount) = readIndex b + ucast (framesToRead b frameCount)"
  "buffer (consumed b frameCount) = buffer b"
  by (simp_all add: consumed_def)

lemma written_new_frames:
  assumes wf: "wf b"
    and len: "unat (framesToWrite b frameCount) * unat (channelCount b) \<le> length d"
    and i: "i < unat (framesToWrite b frameCount)" and c: "c < unat (channelCount b)"
  shows "buffer (written b d frameCount)
           ! (((unat (writeIndex b) + i) mod unat (bufferSize b)) * unat (channelCount b) + c)
         = d ! (i * unat (channelCount b) + c)"
proof -
  define N where "N = unat (channelCount b)"
  define A where "A = available b"
  define n where "n = unat (framesToWrite b frameCount)"
  have "A + i < A + n" using i by (simp add: n_def)
  then have Ai: "A + i < available (written b d frameCount)"
    by (simp add: available_written[OF wf] A_def n_def)
  have "contents (written b d frameCount) ! ((A + i) * N + c)
          = buffer (written b d frameCount)
              ! (((unat (readIndex b) + (A + i)) mod unat (bufferSize b)) * N + c)"
    using nth_contents[of "A + i" "written b d frameCount" c] Ai c by (simp add: N_def)
  moreover have "(unat (readIndex b) + (A + i)) mod unat (bufferSize b)
                   = (unat (writeIndex b) + i) mod unat (bufferSize b)"
    by (simp add: unat_writeIndex_mod[OF wf] A_def add.assoc)
  moreover have "contents (written b d frameCount) ! ((A + i) * N + c) = d ! (i * N + c)"
  proof -
    have "Suc i * N \<le> n * N" using i by (intro mult_le_mono1) (simp add: n_def)
    then have "i * N + c < n * N" using c by (simp add: N_def)
    then show ?thesis
      using len by (simp add: contents_written[OF wf len] nth_append A_def N_def n_def add_mult_distrib)
  qed
  ultimately show ?thesis by (simp add: N_def)
qed

lemma written_keeps_queued:
  assumes wf: "wf b"
    and len: "unat (framesToWrite b frameCount) * unat (channelCount b) \<le> length d"
    and j: "j < available b" and c: "c < unat (channelCount b)"
  shows "buffer (written b d frameCount)
           ! (((unat (readIndex b) + j) mod unat (bufferSize b)) * unat (channelCount b) + c)
         = buffer b ! (((unat (readIndex b) + j) mod unat (bufferSize b)) * unat (channelCount b) + c)"
proof -
  define N where "N = unat (channelCount b)"
  have j': "j < available (written b d frameCount)"
    using j by (simp add: available_written[OF wf])
  have "Suc j * N \<le> available b * N" using j by (intro mult_le_mono1) simp
  then have lt: "j * N + c < available b * N" using c by (simp add: N_def)
  have "buffer (written b d frameCount)
           ! (((unat (readIndex b) + j) mod unat (bufferSize b)) * N + c)
        = contents (written b d frameCount) ! (j * N + c)"
    using nth_contents[OF j', of c] c by (simp add: N_def)
  also have "\<dots> = contents b ! (j * N + c)"
    using lt by (simp add: contents_written[OF wf len] nth_append N_def)
  also have "\<dots> = buffer b ! (((unat (readIndex b) + j) mod unat (bufferSize b)) * N + c)"
    using nth_contents[OF j, of c] c by (simp add: N_def)
  finally show ?thesis by (simp add: N_def)
qed

lemma framesToWrite_fits:
  assumes "unat frameCount * N \<le> L"
  shows "unat (framesToWrite b frameCount) * N \<le> L"
proof -
  have "unat (framesToWrite b frameCount) * N \<le> unat frameCount * N"
    by (intro mult_le_mono1 framesToWrite_le)
  with assms show ?thesis by (rule order_trans[rotated])
qed

lemma framesToRead_fits:
  assumes "unat frameCount * N \<le> L"
  shows "unat (framesToRead b frameCount) * N \<le> L"
proof -
  have "unat (framesToRead b frameCount) * N \<le> unat frameCount * N"
    by (intro mult_le_mono1 framesToRead_le)
  with assms show ?thesis by (rule order_trans[rotated])
qed

lemma hpp_write_ok:
  assumes "hpp_wf x" "unat frameCount * unat (mChannelCount x) \<le> length d"
  shows "hpp_write x d frameCount
           = Inr (framesToWrite (c_view x) frameCount, of_c x (written (c_view x) d frameCount))"
proof -
  have wf: "wf (c_view x)" and m: "mBufferMask x = mBufferSize x - 1"
    using assms by (simp_all add: hpp_wf_def)
  have "unat (framesToWrite (c_view x) frameCount) * unat (channelCount (c_view x)) \<le> length d"
    using assms(2) by (intro framesToWrite_fits) (simp add: c_view_def)
  from Write_Ptr[OF wf this] show ?thesis
    by (simp add: hpp_write_sim[OF m])
qed

lemma hpp_read_ok:
  assumes "hpp_wf x" "unat frameCount * unat (mChannelCount x) \<le> length d" "length d * 4 < 2 ^ 64"
  shows "hpp_read x d frameCount
           = Inr (framesToRead (c_view x) frameCount, of_c x (consumed (c_view x) frameCount),
                  take (unat (framesToRead (c_view x) frameCount) * unat (mChannelCount x)) (contents (c_view x))
                  @ replicate ((unat frameCount - unat (framesToRead (c_view x) frameCount)) * unat (mChannelCount x)) 0
                  @ drop (unat frameCount * unat (mChannelCount x)) d)"
proof -
  have wf: "wf (c_view x)" and m: "mBufferMask x = mBufferSize x - 1"
    using assms by (simp_all add: hpp_wf_def)
  have cc: "channelCount (c_view x) = mChannelCount x" by (simp add: c_view_def)
  from Read_Ptr[OF wf, of frameCount d] assms(2,3) show ?thesis
    by (simp add: hpp_read_sim[OF m] cc)
qed

section \<open>Write\<close>

text \<open>
  Claim C3 (write overrun policy). On a well-formed buffer, with a data array that holds
  \<open>frameCount\<close> frames, \<open>AudioRingBuffer_Write\<close> returns
  \<open>toWrite = min frameCount freeFrames\<close> without a fault; frame \<open>i < toWrite\<close> of
  the data lands at store position \<open>(writeIndex + i) mod capacity\<close>, channel by channel;
  \<open>writeIndex\<close> advances by exactly \<open>toWrite\<close> and nothing else of the state
  changes; every written and not yet read frame keeps its samples; and the queue the
  buffer holds afterwards is the old queue followed by the first \<open>toWrite\<close> frames of
  the data, so that the dropped tail is nowhere in it and no later read, which hands out
  queue contents only, can return it. The C++ method \<open>write\<close> of the header does the
  same on the same state.
\<close>

theorem write_overrun_policy:
  fixes b :: "'a AudioRingBuffer"
  assumes wf: "wf b"
    and len: "unat frameCount * unat (channelCount b) \<le> length d"
  defines "toWrite \<equiv> min frameCount (AudioRingBuffer_GetFreeFrames (Ptr b))"
    and "N \<equiv> unat (channelCount b)"
    and "C \<equiv> unat (bufferSize b)"
  shows "\<exists>b'. AudioRingBuffer_Write (Ptr b) (Ptr d) frameCount = Inr (toWrite, Ptr b')
      \<and> unat toWrite = min (unat frameCount) (C - available b)
      \<and> writeIndex b' = writeIndex b + ucast toWrite
      \<and> readIndex b' = readIndex b \<and> bufferSize b' = bufferSize b
      \<and> channelCount b' = channelCount b \<and> length (buffer b') = length (buffer b)
      \<and> (\<forall>i<unat toWrite. \<forall>c<N.
            buffer b' ! (((unat (writeIndex b) + i) mod C) * N + c) = d ! (i * N + c))
      \<and> (\<forall>j<available b. \<forall>c<N.
            buffer b' ! (((unat (readIndex b) + j) mod C) * N + c)
              = buffer b ! (((unat (readIndex b) + j) mod C) * N + c))
      \<and> contents b' = contents b @ take (unat toWrite * N) d
      \<and> wf b'
      \<and> (\<forall>x. c_view x = b \<and> mBufferMask x = mBufferSize x - 1 \<longrightarrow>
            hpp_write x d frameCount = Inr (toWrite, of_c x b'))"
proof -
  have tw: "toWrite = framesToWrite b frameCount" by (simp add: toWrite_def framesToWrite_def)
  have fit: "unat (framesToWrite b frameCount) * unat (channelCount b) \<le> length d"
    using len by (rule framesToWrite_fits)
  have hpp: "hpp_write x d frameCount = Inr (toWrite, of_c x (written b d frameCount))"
    if "c_view x = b \<and> mBufferMask x = mBufferSize x - 1" for x
  proof -
    have "hpp_wf x" using that wf by (simp add: hpp_wf_def)
    moreover have "unat frameCount * unat (mChannelCount x) \<le> length d"
      using that len by (auto simp: c_view_def)
    ultimately show ?thesis using that by (simp add: hpp_write_ok tw)
  qed
  show ?thesis
  proof (intro exI[of _ "written b d frameCount"] conjI allI impI)
    show "AudioRingBuffer_Write (Ptr b) (Ptr d) frameCount = Inr (toWrite, Ptr (written b d frameCount))"
      unfolding tw by (rule Write_Ptr[OF wf fit])
    show "unat toWrite = min (unat frameCount) (C - available b)"
      unfolding tw C_def by (rule unat_framesToWrite[OF wf])
    show "contents (written b d frameCount) = contents b @ take (unat toWrite * N) d"
      unfolding tw N_def by (rule contents_written[OF wf fit])
    show "wf (written b d frameCount)" by (rule wf_written[OF wf])
  next
    fix i c assume "i < unat toWrite" "c < N"
    then show "buffer (written b d frameCount) ! (((unat (writeIndex b) + i) mod C) * N + c)
                 = d ! (i * N + c)"
      unfolding tw N_def C_def by (intro written_new_frames[OF wf fit])
  next
    fix j c assume "j < available b" "c < N"
    then show "buffer (written b d frameCount) ! (((unat (readIndex b) + j) mod C) * N + c)
                 = buffer b ! (((unat (readIndex b) + j) mod C) * N + c)"
      unfolding N_def C_def by (intro written_keeps_queued[OF wf fit])
  next
    fix x assume "c_view x = b \<and> mBufferMask x = mBufferSize x - 1"
    then show "hpp_write x d frameCount = Inr (toWrite, of_c x (written b d frameCount))"
      by (rule hpp)
  qed (simp_all add: tw)
qed

theorem write_overrun_policy_witness:
  "wf \<lparr>buffer = [10, 11, 12, 13, 14, 15, 16, 17 :: int], bufferSize = 4, channelCount = 2,
        writeIndex = 7, readIndex = 5\<rparr>
   \<and> (\<exists>b'. AudioRingBuffer_Write
          (Ptr \<lparr>buffer = [10, 11, 12, 13, 14, 15, 16, 17 :: int], bufferSize = 4, channelCount = 2,
                 writeIndex = 7, readIndex = 5\<rparr>) (Ptr [1, 2, 3, 4, 5, 6]) 3 = Inr (2, Ptr b')
        \<and> contents b' = [12, 13, 14, 15, 1, 2, 3, 4])"
proof -
  define b :: "int AudioRingBuffer" where
    "b = \<lparr>buffer = [10, 11, 12, 13, 14, 15, 16, 17], bufferSize = 4, channelCount = 2,
        writeIndex = 7, readIndex = 5\<rparr>"
  have wf: "wf b"
    unfolding wf_def b_def by (simp add: bexI[of _ 2])
  have len: "unat (3 :: 32 word) * unat (channelCount b) \<le> length [1, 2, 3, 4, 5, 6 :: int]"
    by (simp add: b_def)
  have n: "min 3 (AudioRingBuffer_GetFreeFrames (Ptr b)) = 2"
    by (simp add: b_def AudioRingBuffer_GetFreeFrames_def AudioRingBuffer_GetAvailableFrames_def)
  have c: "contents b = [12, 13, 14, 15]"
    by (simp add: b_def contents_def available_def ring_view_def upt_rec)
  from write_overrun_policy[OF wf len] n c wf show ?thesis
    unfolding b_def by auto
qed

section \<open>Read\<close>

text \<open>
  Claim C2 (read underrun policy). On a well-formed buffer, with an output array that
  holds \<open>frameCount\<close> frames, \<open>AudioRingBuffer_Read\<close> returns
  \<open>toRead = min frameCount availableFrames\<close> without a fault; output frame
  \<open>i < toRead\<close> is the frame at store position \<open>(readIndex + i) mod capacity\<close>,
  so the first \<open>toRead\<close> frames of the output are the oldest \<open>toRead\<close> frames of
  the queue, each once and in order; the remaining \<open>frameCount - toRead\<close> frames of
  the output are all zero; the array beyond \<open>frameCount\<close> frames is untouched;
  \<open>readIndex\<close> advances by exactly \<open>toRead\<close> and nothing else of the buffer
  changes. The C++ method \<open>read\<close> of the header does the same on the same state.
\<close>

theorem read_underrun_policy:
  fixes b :: "'a::zero AudioRingBuffer"
  assumes wf: "wf b"
    and len: "unat frameCount * unat (channelCount b) \<le> length d"
    and arr: "length d * 4 < 2 ^ 64"
  defines "toRead \<equiv> min frameCount (AudioRingBuffer_GetAvailableFrames (Ptr b))"
    and "N \<equiv> unat (channelCount b)"
    and "C \<equiv> unat (bufferSize b)"
    and "F \<equiv> unat frameCount"
  shows "\<exists>d'. AudioRingBuffer_Read (Ptr b) (Ptr d) frameCount
                = Inr (toRead, Ptr (b\<lparr>readIndex := readIndex b + ucast toRead\<rparr>), Ptr d')
      \<and> unat toRead = min F (available b)
      \<and> length d' = length d
      \<and> (\<forall>i<unat toRead. \<forall>c<N.
            d' ! (i * N + c) = buffer b ! (((unat (readIndex b) + i) mod C) * N + c))
      \<and> (\<forall>k. unat toRead * N \<le> k \<and> k < F * N \<longrightarrow> d' ! k = 0)
      \<and> (\<forall>k. F * N \<le> k \<and> k < length d \<longrightarrow> d' ! k = d ! k)
      \<and> d' = take (unat toRead * N) (contents b) @ replicate ((F - unat toRead) * N) 0 @ drop (F * N) d
      \<and> contents (b\<lparr>readIndex := readIndex b + ucast toRead\<rparr>) = drop (unat toRead * N) (contents b)
      \<and> wf (b\<lparr>readIndex := readIndex b + ucast toRead\<rparr>)
      \<and> (\<forall>x. c_view x = b \<and> mBufferMask x = mBufferSize x - 1 \<longrightarrow>
            hpp_read x d frameCount
              = Inr (toRead, x\<lparr>mReadIndex := mReadIndex x + ucast toRead\<rparr>, d'))"
proof -
  define n where "n = unat toRead"
  define d' where "d' = take (n * N) (contents b) @ replicate ((F - n) * N) 0 @ drop (F * N) d"
  have tr: "toRead = framesToRead b frameCount" by (simp add: toRead_def framesToRead_def)
  have cons: "b\<lparr>readIndex := readIndex b + ucast toRead\<rparr> = consumed b frameCount"
    by (simp add: consumed_def tr)
  have n: "n = min F (available b)"
    by (simp add: n_def tr F_def unat_framesToRead[OF wf])
  have nN: "n * N \<le> F * N" using n by (intro mult_le_mono1) simp
  have nA: "n * N \<le> available b * N" using n by (intro mult_le_mono1) simp
  have FN: "F * N \<le> length d" using len by (simp add: F_def N_def)
  have lc: "length (take (n * N) (contents b)) = n * N"
    using nA by (simp add: N_def)
  have nF: "n * N + (F - n) * N = F * N"
    using n by (simp add: add_mult_distrib[symmetric])
  have ld: "length d' = length d"
    using lc nF FN by (simp add: d'_def)
  have read: "AudioRingBuffer_Read (Ptr b) (Ptr d) frameCount = Inr (toRead, Ptr (consumed b frameCount), Ptr d')"
    using Read_Ptr[OF wf len arr] by (simp add: d'_def n_def tr N_def F_def)
  have hpp: "hpp_read x d frameCount = Inr (toRead, x\<lparr>mReadIndex := mReadIndex x + ucast toRead\<rparr>, d')"
    if "c_view x = b \<and> mBufferMask x = mBufferSize x - 1" for x
  proof -
    have "hpp_wf x" using that wf by (simp add: hpp_wf_def)
    moreover have "unat frameCount * unat (mChannelCount x) \<le> length d"
      using that len by (auto simp: c_view_def)
    moreover have "of_c x (consumed (c_view x) frameCount)
        = x\<lparr>mReadIndex := mReadIndex x + ucast (framesToRead (c_view x) frameCount)\<rparr>"
      by (simp add: of_c_def consumed_def c_view_def)
    moreover have "mChannelCount x = channelCount b" using that by (auto simp: c_view_def)
    ultimately show ?thesis
      using that hpp_read_ok[of x frameCount d] arr
      by (simp add: tr d'_def n_def N_def F_def)
  qed
  show ?thesis
  proof (intro exI[of _ d'] conjI allI impI)
    show "AudioRingBuffer_Read (Ptr b) (Ptr d) frameCount
            = Inr (toRead, Ptr (b\<lparr>readIndex := readIndex b + ucast toRead\<rparr>), Ptr d')"
      unfolding cons by (rule read)
    show "unat toRead = min F (available b)" using n by (simp add: n_def)
    show "length d' = length d" by (rule ld)
    show "d' = take (unat toRead * N) (contents b) @ replicate ((F - unat toRead) * N) 0 @ drop (F * N) d"
      by (simp add: d'_def n_def)
    show "contents (b\<lparr>readIndex := readIndex b + ucast toRead\<rparr>) = drop (unat toRead * N) (contents b)"
      using contents_consumed[OF wf, of frameCount] by (simp add: consumed_def tr N_def)
    show "wf (b\<lparr>readIndex := readIndex b + ucast toRead\<rparr>)"
      unfolding cons by (rule wf_consumed[OF wf])
  next
    fix i c assume i: "i < unat toRead" and c: "c < N"
    then have ia: "i < available b" using n by (simp add: n_def)
    have "Suc i * N \<le> n * N" using i by (intro mult_le_mono1) (simp add: n_def)
    then have lt: "i * N + c < n * N" using c by simp
    then have "d' ! (i * N + c) = contents b ! (i * N + c)"
      using lc by (simp add: d'_def nth_append)
    also have "\<dots> = buffer b ! (((unat (readIndex b) + i) mod C) * N + c)"
      using nth_contents[OF ia, of c] c by (simp add: N_def C_def)
    finally show "d' ! (i * N + c) = buffer b ! (((unat (readIndex b) + i) mod C) * N + c)" .
  next
    fix k assume k: "unat toRead * N \<le> k \<and> k < F * N"
    then have "k - n * N < (F - n) * N" using nF unfolding n_def by linarith
    with k show "d' ! k = 0"
      using lc by (simp add: d'_def nth_append n_def)
  next
    fix k assume k: "F * N \<le> k \<and> k < length d"
    then have 1: "\<not> k < n * N" using nN by linarith
    from k have 2: "\<not> k - n * N < (F - n) * N" using nF by linarith
    have 3: "k - n * N - (F - n) * N = k - F * N" using nF by linarith
    from k FN show "d' ! k = d ! k"
      using lc 1 2 3 by (simp add: d'_def nth_append)
  next
    fix x assume "c_view x = b \<and> mBufferMask x = mBufferSize x - 1"
    then show "hpp_read x d frameCount = Inr (toRead, x\<lparr>mReadIndex := mReadIndex x + ucast toRead\<rparr>, d')"
      by (rule hpp)
  qed
qed

theorem read_underrun_policy_witness:
  "wf \<lparr>buffer = [10, 11, 12, 13, 14, 15, 16, 17 :: int], bufferSize = 4, channelCount = 2,
        writeIndex = 7, readIndex = 5\<rparr>
   \<and> AudioRingBuffer_Read
          (Ptr \<lparr>buffer = [10, 11, 12, 13, 14, 15, 16, 17 :: int], bufferSize = 4, channelCount = 2,
                 writeIndex = 7, readIndex = 5\<rparr>) (Ptr [1, 2, 3, 4, 5, 6]) 3
        = Inr (2, Ptr \<lparr>buffer = [10, 11, 12, 13, 14, 15, 16, 17], bufferSize = 4, channelCount = 2,
                         writeIndex = 7, readIndex = 7\<rparr>,
               Ptr [12, 13, 14, 15, 0, 0])"
proof -
  define b :: "int AudioRingBuffer" where
    "b = \<lparr>buffer = [10, 11, 12, 13, 14, 15, 16, 17], bufferSize = 4, channelCount = 2,
        writeIndex = 7, readIndex = 5\<rparr>"
  have wf: "wf b"
    unfolding wf_def b_def by (simp add: bexI[of _ 2])
  have len: "unat (3 :: 32 word) * unat (channelCount b) \<le> length [1, 2, 3, 4, 5, 6 :: int]"
    by (simp add: b_def)
  have arr: "length [1, 2, 3, 4, 5, 6 :: int] * 4 < 2 ^ 64" by simp
  have n: "min 3 (AudioRingBuffer_GetAvailableFrames (Ptr b)) = 2"
    by (simp add: b_def AudioRingBuffer_GetAvailableFrames_def)
  have c: "contents b = [12, 13, 14, 15]"
    by (simp add: b_def contents_def available_def ring_view_def upt_rec)
  from read_underrun_policy[OF wf len arr] obtain d' where
    r: "AudioRingBuffer_Read (Ptr b) (Ptr [1, 2, 3, 4, 5, 6]) 3
          = Inr (2, Ptr (b\<lparr>readIndex := readIndex b + 2\<rparr>), Ptr d')"
    and d: "d' = take 4 [12, 13, 14, 15] @ replicate 2 0 @ drop 6 [1, 2, 3, 4, 5, 6]"
    using n c by (auto simp: b_def)
  from d have "d' = [12, 13, 14, 15, 0, 0]" by (simp add: numeral_2_eq_2)
  with r wf show ?thesis unfolding b_def by simp
qed

section \<open>Peek\<close>

text \<open>
  Claim C7 (peek frame effect). On a well-formed buffer \<open>AudioRingBuffer_Peek\<close>
  returns \<open>min frameCount availableFrames\<close>, leaves the buffer (both cursors and the
  whole store) exactly as it was, copies that many frames, the oldest of the queue, into
  the array, and leaves the array beyond the returned count as it was (no silence fill).
  A read of the same count on the buffer as peek left it returns the same count and the
  same frames.
\<close>

theorem peek_frame_effect:
  fixes b :: "'a::zero AudioRingBuffer"
  assumes wf: "wf b"
    and len: "unat frameCount * unat (channelCount b) \<le> length d"
  defines "toPeek \<equiv> min frameCount (AudioRingBuffer_GetAvailableFrames (Ptr b))"
    and "N \<equiv> unat (channelCount b)"
  shows "\<exists>d'. AudioRingBuffer_Peek (Ptr b) (Ptr d) frameCount = Inr (toPeek, Ptr b, Ptr d')
      \<and> length d' = length d
      \<and> take (unat toPeek * N) d' = take (unat toPeek * N) (contents b)
      \<and> drop (unat toPeek * N) d' = drop (unat toPeek * N) d
      \<and> (\<forall>e. unat frameCount * N \<le> length e \<and> length e * 4 < 2 ^ 64 \<longrightarrow>
            (\<exists>b' e'. AudioRingBuffer_Read (Ptr b) (Ptr e) frameCount = Inr (toPeek, b', Ptr e')
                   \<and> take (unat toPeek * N) e' = take (unat toPeek * N) d'))"
proof -
  define n where "n = unat toPeek"
  define d' where "d' = take (n * N) (contents b) @ drop (n * N) d"
  have tp: "toPeek = framesToRead b frameCount" by (simp add: toPeek_def framesToRead_def)
  have n: "n = min (unat frameCount) (available b)"
    by (simp add: n_def tp unat_framesToRead[OF wf])
  have nA: "n * N \<le> available b * N" using n by (intro mult_le_mono1) simp
  have fit: "unat (framesToRead b frameCount) * unat (channelCount b) \<le> length d"
    using len by (rule framesToRead_fits)
  then have nd: "n * N \<le> length d" by (simp add: n_def tp N_def)
  have lc: "length (take (n * N) (contents b)) = n * N"
    using nA by (simp add: N_def)
  have peek: "AudioRingBuffer_Peek (Ptr b) (Ptr d) frameCount = Inr (toPeek, Ptr b, Ptr d')"
    using Peek_Ptr[OF wf fit] by (simp add: d'_def n_def tp N_def)
  have rd: "\<exists>b' e'. AudioRingBuffer_Read (Ptr b) (Ptr e) frameCount = Inr (toPeek, b', Ptr e')
                   \<and> take (n * N) e' = take (n * N) d'"
    if "unat frameCount * N \<le> length e \<and> length e * 4 < 2 ^ 64" for e
  proof -
    have "AudioRingBuffer_Read (Ptr b) (Ptr e) frameCount
            = Inr (toPeek, Ptr (consumed b frameCount),
                   Ptr (take (n * N) (contents b)
                        @ replicate ((unat frameCount - n) * N) 0 @ drop (unat frameCount * N) e))"
      using Read_Ptr[OF wf, of frameCount e] that by (simp add: tp n_def N_def)
    then show ?thesis using lc by (simp add: d'_def)
  qed
  show ?thesis
  proof (intro exI[of _ d'] conjI allI impI)
    show "AudioRingBuffer_Peek (Ptr b) (Ptr d) frameCount = Inr (toPeek, Ptr b, Ptr d')" by (rule peek)
    show "length d' = length d" using lc nd by (simp add: d'_def)
    show "take (unat toPeek * N) d' = take (unat toPeek * N) (contents b)"
      using lc by (simp add: d'_def n_def[symmetric])
    show "drop (unat toPeek * N) d' = drop (unat toPeek * N) d"
      using lc by (simp add: d'_def n_def[symmetric])
  next
    fix e :: "'a list" assume "unat frameCount * N \<le> length e \<and> length e * 4 < 2 ^ 64"
    from rd[OF this]
    show "\<exists>b' e'. AudioRingBuffer_Read (Ptr b) (Ptr e) frameCount = Inr (toPeek, b', Ptr e')
                   \<and> take (unat toPeek * N) e' = take (unat toPeek * N) d'"
      by (simp add: n_def)
  qed
qed

theorem peek_frame_effect_witness:
  "wf \<lparr>buffer = [10, 11, 12, 13, 14, 15, 16, 17 :: int], bufferSize = 4, channelCount = 2,
        writeIndex = 7, readIndex = 5\<rparr>
   \<and> AudioRingBuffer_Peek
          (Ptr \<lparr>buffer = [10, 11, 12, 13, 14, 15, 16, 17 :: int], bufferSize = 4, channelCount = 2,
                 writeIndex = 7, readIndex = 5\<rparr>) (Ptr [1, 2, 3, 4, 5, 6]) 3
        = Inr (2, Ptr \<lparr>buffer = [10, 11, 12, 13, 14, 15, 16, 17], bufferSize = 4, channelCount = 2,
                         writeIndex = 7, readIndex = 5\<rparr>,
               Ptr [12, 13, 14, 15, 5, 6])"
proof -
  define b :: "int AudioRingBuffer" where
    "b = \<lparr>buffer = [10, 11, 12, 13, 14, 15, 16, 17], bufferSize = 4, channelCount = 2,
        writeIndex = 7, readIndex = 5\<rparr>"
  have wf: "wf b"
    unfolding wf_def b_def by (simp add: bexI[of _ 2])
  have len: "unat (3 :: 32 word) * unat (channelCount b) \<le> length [1, 2, 3, 4, 5, 6 :: int]"
    by (simp add: b_def)
  have n: "min 3 (AudioRingBuffer_GetAvailableFrames (Ptr b)) = 2"
    by (simp add: b_def AudioRingBuffer_GetAvailableFrames_def)
  have c: "contents b = [12, 13, 14, 15]"
    by (simp add: b_def contents_def available_def ring_view_def upt_rec)
  from peek_frame_effect[OF wf len] obtain d' where
    p: "AudioRingBuffer_Peek (Ptr b) (Ptr [1, 2, 3, 4, 5, 6]) 3 = Inr (2, Ptr b, Ptr d')"
    and l: "length d' = 6"
    and t: "take 4 d' = [12, 13, 14, 15]" and d: "drop 4 d' = [5, 6]"
    using n c by (auto simp: b_def)
  have "d' = take 4 d' @ drop 4 d'" by simp
  then have "d' = [12, 13, 14, 15, 5, 6]" unfolding t d by simp
  with p wf show ?thesis unfolding b_def by simp
qed

section \<open>Reset\<close>

text \<open>
  Claim C8 (reset postcondition). On a well-formed buffer \<open>AudioRingBuffer_Reset\<close>
  sets both cursors to 0 and every sample of the store to zero, and changes nothing else;
  \<open>AudioRingBuffer_GetAvailableFrames\<close> then returns 0, and a read that follows
  with nothing written in between returns 0 and fills the \<open>frameCount\<close> requested
  frames with zeros. The C++ methods \<open>reset\<close>, \<open>availableFrames\<close> and
  \<open>read\<close> of the header do the same.
\<close>

theorem reset_postcondition:
  fixes b :: "'a::zero AudioRingBuffer"
  assumes wf: "wf b"
    and len: "unat frameCount * unat (channelCount b) \<le> length d"
    and arr: "length d * 4 < 2 ^ 64"
  defines "silence \<equiv> replicate (unat frameCount * unat (channelCount b)) (0::'a)
                        @ drop (unat frameCount * unat (channelCount b)) d"
  shows "\<exists>b'. AudioRingBuffer_Reset (Ptr b) = Inr (Ptr b')
      \<and> writeIndex b' = 0 \<and> readIndex b' = 0
      \<and> buffer b' = replicate (length (buffer b)) 0
      \<and> bufferSize b' = bufferSize b \<and> channelCount b' = channelCount b
      \<and> wf b'
      \<and> AudioRingBuffer_GetAvailableFrames (Ptr b') = 0
      \<and> AudioRingBuffer_Read (Ptr b') (Ptr d) frameCount = Inr (0, Ptr b', Ptr silence)
      \<and> (\<forall>x. c_view x = b \<and> mBufferMask x = mBufferSize x - 1 \<longrightarrow>
            hpp_reset x = Inr (of_c x b')
            \<and> hpp_availableFrames (of_c x b') = 0
            \<and> hpp_read (of_c x b') d frameCount = Inr (0, of_c x b', silence))"
proof -
  define b' where "b' = b\<lparr>writeIndex := 0, readIndex := 0,
                          buffer := replicate (unat (bufferSize b) * unat (channelCount b)) 0\<rparr>"
  have reset: "AudioRingBuffer_Reset (Ptr b) = Inr (Ptr b')"
    unfolding b'_def by (rule Reset_Ptr[OF wf])
  have wf': "wf b'" using wf by (simp add: wf_def b'_def)
  have av: "AudioRingBuffer_GetAvailableFrames (Ptr b') = 0"
    by (simp add: AudioRingBuffer_GetAvailableFrames_def b'_def)
  then have n: "framesToRead b' frameCount = 0"
    by (simp add: framesToRead_def)
  then have cons: "consumed b' frameCount = b'" by (simp add: consumed_def)
  have cc: "channelCount b' = channelCount b" by (simp add: b'_def)
  have read: "AudioRingBuffer_Read (Ptr b') (Ptr d) frameCount = Inr (0, Ptr b', Ptr silence)"
    using Read_Ptr[OF wf', of frameCount d] len arr
    by (simp add: n cons cc silence_def)
  have hpp: "hpp_reset x = Inr (of_c x b')
            \<and> hpp_availableFrames (of_c x b') = 0
            \<and> hpp_read (of_c x b') d frameCount = Inr (0, of_c x b', silence)"
    if x: "c_view x = b \<and> mBufferMask x = mBufferSize x - 1" for x
  proof -
    have cv: "c_view (of_c x b') = b'"
      using x by (auto simp: c_view_def of_c_def b'_def)
    have m: "mBufferMask (of_c x b') = mBufferSize (of_c x b') - 1"
      using x by (simp add: of_c_def)
    have "hpp_reset x = Inr (of_c x b')"
      using x reset by (simp add: hpp_reset_sim)
    moreover have "hpp_availableFrames (of_c x b') = 0"
      using av by (simp add: hpp_counts cv)
    moreover have "hpp_read (of_c x b') d frameCount = Inr (0, of_c x b', silence)"
      using read hpp_read_sim[OF m, of d frameCount] by (simp add: cv) (simp add: of_c_def)
    ultimately show ?thesis by simp
  qed
  show ?thesis
  proof (intro exI[of _ b'] conjI allI impI)
    show "buffer b' = replicate (length (buffer b)) 0"
      using wf by (simp add: b'_def wf_def)
  next
    fix x assume "c_view x = b \<and> mBufferMask x = mBufferSize x - 1"
    from hpp[OF this] show "hpp_reset x = Inr (of_c x b')"
      "hpp_availableFrames (of_c x b') = 0"
      "hpp_read (of_c x b') d frameCount = Inr (0, of_c x b', silence)"
      by simp_all
  qed (simp_all add: reset wf' av read, simp_all add: b'_def)
qed

theorem reset_postcondition_witness:
  "wf \<lparr>buffer = [10, 11, 12, 13, 14, 15, 16, 17 :: int], bufferSize = 4, channelCount = 2,
        writeIndex = 7, readIndex = 5\<rparr>
   \<and> AudioRingBuffer_Reset
          (Ptr \<lparr>buffer = [10, 11, 12, 13, 14, 15, 16, 17 :: int], bufferSize = 4, channelCount = 2,
                 writeIndex = 7, readIndex = 5\<rparr>)
        = Inr (Ptr \<lparr>buffer = [0, 0, 0, 0, 0, 0, 0, 0], bufferSize = 4, channelCount = 2,
                      writeIndex = 0, readIndex = 0\<rparr>)
   \<and> AudioRingBuffer_Read
          (Ptr \<lparr>buffer = [0, 0, 0, 0, 0, 0, 0, 0 :: int], bufferSize = 4, channelCount = 2,
                 writeIndex = 0, readIndex = 0\<rparr>) (Ptr [1, 2, 3, 4, 5, 6]) 2
        = Inr (0, Ptr \<lparr>buffer = [0, 0, 0, 0, 0, 0, 0, 0], bufferSize = 4, channelCount = 2,
                         writeIndex = 0, readIndex = 0\<rparr>,
               Ptr [0, 0, 0, 0, 5, 6])"
proof -
  define b :: "int AudioRingBuffer" where
    "b = \<lparr>buffer = [10, 11, 12, 13, 14, 15, 16, 17], bufferSize = 4, channelCount = 2,
        writeIndex = 7, readIndex = 5\<rparr>"
  have wf: "wf b"
    unfolding wf_def b_def by (simp add: bexI[of _ 2])
  have len: "unat (2 :: 32 word) * unat (channelCount b) \<le> length [1, 2, 3, 4, 5, 6 :: int]"
    by (simp add: b_def)
  have arr: "length [1, 2, 3, 4, 5, 6 :: int] * 4 < 2 ^ 64" by simp
  from reset_postcondition[OF wf len arr] obtain b' where
    r: "AudioRingBuffer_Reset (Ptr b) = Inr (Ptr b')"
    and sel: "writeIndex b' = 0" "readIndex b' = 0" "buffer b' = replicate (length (buffer b)) 0"
       "bufferSize b' = bufferSize b" "channelCount b' = channelCount b"
    and rd: "AudioRingBuffer_Read (Ptr b') (Ptr [1, 2, 3, 4, 5, 6]) 2
               = Inr (0, Ptr b', Ptr (replicate (unat (2 :: 32 word) * unat (channelCount b)) 0
                                     @ drop (unat (2 :: 32 word) * unat (channelCount b)) [1, 2, 3, 4, 5, 6]))"
    by blast
  have e1: "unat (2 :: 32 word) * unat (channelCount b) = 4" "length (buffer b) = 8"
    by (simp_all add: b_def)
  have e2: "replicate 4 (0::int) = [0, 0, 0, 0]" "replicate 8 (0::int) = [0, 0, 0, 0, 0, 0, 0, 0]"
    by (simp_all add: numeral_eq_Suc)
  have "b' = \<lparr>buffer = [0, 0, 0, 0, 0, 0, 0, 0], bufferSize = 4, channelCount = 2,
                      writeIndex = 0, readIndex = 0\<rparr>"
    using sel unfolding e1 e2 by (cases b') (simp add: b_def)
  with r rd wf show ?thesis
    unfolding e1 e2 b_def by (simp add: e2)
qed

section \<open>Creation\<close>

lemma is_pow2_iff: "is_pow2 p \<longleftrightarrow> (\<exists>k. p = 2 ^ k)"
proof
  assume "\<exists>k. p = 2 ^ k"
  then obtain k where k: "p = 2 ^ k" by blast
  have "k < 2 ^ k" by (rule less_exp)
  with k show "is_pow2 p" by (auto simp: is_pow2_def)
qed (auto simp: is_pow2_def)

lemma smallest_pow2_geI:
  assumes "n \<le> 2 ^ k" "k = 0 \<or> 2 ^ (k - 1) < n"
  shows "smallest_pow2_ge (2 ^ k) n"
proof -
  have "\<not> is_pow2 q" if q: "q \<in> {n..<2 ^ k}" for q
  proof
    assume "is_pow2 q"
    then obtain j where j: "q = 2 ^ j" by (auto simp: is_pow2_iff)
    with q have "(2::nat) ^ j < 2 ^ k" by simp
    then have jk: "j < k" by simp
    then have "j \<le> k - 1" by simp
    then have a: "(2::nat) ^ j \<le> 2 ^ (k - 1)" by (intro power_increasing) simp_all
    from jk assms(2) have b: "2 ^ (k - 1) < n" by auto
    from q j have c: "n \<le> 2 ^ j" by simp
    from a b c show False by linarith
  qed
  then show ?thesis using assms(1) by (auto simp: smallest_pow2_ge_def is_pow2_iff)
qed

lemma word_le_pow_nat:
  fixes n :: "32 word"
  assumes "k < 32"
  shows "n \<le> 2 ^ k \<longleftrightarrow> unat n \<le> 2 ^ k" and "2 ^ k < n \<longleftrightarrow> 2 ^ k < unat n"
  using assms by (simp_all add: word_le_nat_alt word_less_nat_alt unat_pow32)

lemma round_up_loop_smallest:
  assumes "request \<le> 2 ^ 31"
  obtains k where "k \<le> 31" "round_up_loop 1 request = Some (2 ^ k)"
    "smallest_pow2_ge (2 ^ k) (unat request)"
proof -
  from round_up_loop_1[OF assms] obtain k where k: "k \<le> 31" "round_up_loop 1 request = Some (2 ^ k)"
    "request \<le> 2 ^ k" "k = 0 \<or> (2::32 word) ^ (k - 1) < request"
    by blast
  have "unat request \<le> 2 ^ k" using k(1,3) by (simp add: word_le_pow_nat)
  moreover have "k = 0 \<or> 2 ^ (k - 1) < unat request"
    using k(1,4) by (auto simp: word_le_pow_nat)
  ultimately have "smallest_pow2_ge (2 ^ k) (unat request)" by (rule smallest_pow2_geI)
  with k(1,2) show ?thesis by (rule that)
qed

lemma Create_cases:
  assumes "AudioRingBuffer_Create malloc_ok calloc_ok request channels = Some (Ptr b)"
  obtains k where "k \<le> 31" "round_up_loop 1 request = Some (2 ^ k)"
    "smallest_pow2_ge (2 ^ k) (unat request)"
    "b = \<lparr>buffer = replicate (2 ^ k * unat channels) 0, bufferSize = 2 ^ k,
          channelCount = channels, writeIndex = 0, readIndex = 0\<rparr>"
    "2 ^ k * unat channels * 4 < (2::nat) ^ 64" "malloc_ok" "calloc_ok"
proof -
  from assms have m: "malloc_ok"
    by (auto simp: AudioRingBuffer_Create_def split: if_splits)
  from assms m obtain p where p: "round_up_loop 1 request = Some p"
    by (auto simp: AudioRingBuffer_Create_def split: option.splits)
  have "request \<le> 2 ^ 31"
  proof (rule ccontr)
    assume "\<not> request \<le> 2 ^ 31"
    then have "round_up_loop 1 request = None"
      by (intro round_up_loop_diverges) (simp add: not_le)
    with p show False by simp
  qed
  then obtain k where k: "k \<le> 31" "round_up_loop 1 request = Some (2 ^ k)"
    "smallest_pow2_ge (2 ^ k) (unat request)"
    by (rule round_up_loop_smallest)
  have u: "unat ((2::32 word) ^ k) = 2 ^ k" using k(1) by (simp add: unat_pow32)
  from assms m k(2) have "calloc_ok \<and> 2 ^ k * unat channels * 4 < (2::nat) ^ 64
     \<and> b = \<lparr>buffer = replicate (2 ^ k * unat channels) 0, bufferSize = 2 ^ k,
          channelCount = channels, writeIndex = 0, readIndex = 0\<rparr>"
    by (auto simp: AudioRingBuffer_Create_def calloc_def u Let_def mult.commute split: if_splits)
  with k m show ?thesis by (intro that[of k]) simp_all
qed

lemma Create_wf:
  assumes "AudioRingBuffer_Create malloc_ok calloc_ok request channels = Some (Ptr b)"
  shows "wf b" and "contents b = []" and "channelCount b = channels" and "available b = 0"
proof -
  from assms obtain k where k: "k \<le> 31"
    "b = \<lparr>buffer = replicate (2 ^ k * unat channels) 0, bufferSize = 2 ^ k,
          channelCount = channels, writeIndex = 0, readIndex = 0\<rparr>"
    "2 ^ k * unat channels * 4 < (2::nat) ^ 64"
    by (rule Create_cases)
  have u: "unat ((2::32 word) ^ k) = 2 ^ k" using k(1) by (simp add: unat_pow32)
  have "k \<in> {..<32}" using k(1) by simp
  then show "wf b" using k(3) unfolding wf_def k(2) by (auto simp: u)
  show "contents b = []" by (simp add: contents_def available_def ring_view_def k(2))
  show "channelCount b = channels" by (simp add: k(2))
  show "available b = 0" by (simp add: available_def k(2))
qed

lemma Create_returns:
  assumes "request \<le> 2 ^ 31"
  shows "AudioRingBuffer_Create malloc_ok calloc_ok request channels \<noteq> None"
proof -
  from assms obtain k where "round_up_loop 1 request = Some (2 ^ k)"
    by (rule round_up_loop_smallest)
  then show ?thesis
    by (simp add: AudioRingBuffer_Create_def Let_def split: ptr.splits)
qed

lemma Create_succeeds:
  assumes "request \<le> 2 ^ 31" "malloc_ok" "calloc_ok" "channels < 2 ^ 31"
  shows "\<exists>b. AudioRingBuffer_Create malloc_ok calloc_ok request channels = Some (Ptr (b :: 'a::zero AudioRingBuffer))"
proof -
  from assms(1) obtain k where k: "k \<le> 31" "round_up_loop 1 request = Some (2 ^ k)"
    by (rule round_up_loop_smallest)
  have u: "unat ((2::32 word) ^ k) = 2 ^ k" using k(1) by (simp add: unat_pow32)
  have "(2::nat) ^ k \<le> 2 ^ 31" using k(1) by (intro power_increasing) simp_all
  moreover have "unat channels \<le> 2 ^ 31 - 1" using assms(4) by (simp add: word_less_nat_alt)
  ultimately have "2 ^ k * unat channels \<le> 2 ^ 31 * (2 ^ 31 - 1)"
    by (intro mult_mono) simp_all
  then have "2 ^ k * unat channels * 4 < (2::nat) ^ 64" by (simp add: mult.commute)
  then show ?thesis using assms(2,3) k(2)
    by (simp add: AudioRingBuffer_Create_def Let_def calloc_def u mult.commute)
qed

lemma Create_diverges:
  assumes "2 ^ 31 < request"
  shows "AudioRingBuffer_Create True calloc_ok request channels = None"
  using round_up_loop_diverges[OF assms] by (simp add: AudioRingBuffer_Create_def)

lemma hpp_ctor_cases:
  assumes "hpp_AudioRingBuffer alloc_ok request channels = Some (Inr x)"
  obtains k where "k \<le> 31" "smallest_pow2_ge (2 ^ k) (unat request)"
    "x = \<lparr>mBuffer = replicate (2 ^ k * unat channels) 0, mBufferSize = 2 ^ k,
          mBufferMask = 2 ^ k - 1, mChannelCount = channels, mWriteIndex = 0, mReadIndex = 0\<rparr>"
proof -
  from assms obtain p where p: "round_up_loop 1 request = Some p"
    by (auto simp: hpp_AudioRingBuffer_def split: option.splits)
  have "request \<le> 2 ^ 31"
  proof (rule ccontr)
    assume "\<not> request \<le> 2 ^ 31"
    then have "round_up_loop 1 request = None"
      by (intro round_up_loop_diverges) (simp add: not_le)
    with p show False by simp
  qed
  then obtain k where k: "k \<le> 31" "round_up_loop 1 request = Some (2 ^ k)"
    "smallest_pow2_ge (2 ^ k) (unat request)"
    by (rule round_up_loop_smallest)
  have u: "unat ((2::32 word) ^ k) = 2 ^ k" using k(1) by (simp add: unat_pow32)
  define n where "n = 2 ^ k * unat channels"
  from assms k(2) have ok: "alloc_ok \<and> n * 4 < 2 ^ 64"
    by (auto simp: hpp_AudioRingBuffer_def new_floats_def u n_def split: if_splits sum.splits)
  then have "memset0 (replicate n (0::'a)) 0 ((n * 4) mod 2 ^ 64) = Inr (replicate n 0)"
    by (simp add: memset0_def)
  with assms k(2) ok have
    "x = \<lparr>mBuffer = replicate n 0, mBufferSize = 2 ^ k,
          mBufferMask = 2 ^ k - 1, mChannelCount = channels, mWriteIndex = 0, mReadIndex = 0\<rparr>"
    by (simp add: hpp_AudioRingBuffer_def new_floats_def u n_def[symmetric])
  with k show ?thesis unfolding n_def by (intro that[of k])
qed

lemma hpp_ctor_returns:
  assumes "request \<le> 2 ^ 31"
  shows "hpp_AudioRingBuffer alloc_ok request channels \<noteq> None"
proof -
  from assms obtain k where "round_up_loop 1 request = Some (2 ^ k)"
    by (rule round_up_loop_smallest)
  then show ?thesis by (simp add: hpp_AudioRingBuffer_def)
qed

lemma not_pow2_96000: "\<not> is_pow2 96000"
proof
  assume "is_pow2 96000"
  then obtain k where k: "2 ^ k = (96000::nat)" by (auto simp: is_pow2_iff)
  show False
  proof (cases "k \<le> 8")
    case True
    then have "(2::nat) ^ k \<le> 2 ^ 8" by (intro power_increasing) simp_all
    then have "(2::nat) ^ k \<le> 256" by simp
    with k show False by linarith
  next
    case False
    then obtain m where m: "k = 8 + Suc m" by (metis add_Suc_right less_imp_Suc_add not_le)
    have "(2::nat) ^ k = 256 * (2 * 2 ^ m)" unfolding m power_add by simp
    with k have "256 * (2 * (2::nat) ^ m) = 96000" by linarith
    then have "2 * (2::nat) ^ m = 375" by linarith
    then show False by presburger
  qed
qed

lemma Create_fails:
  assumes "request \<le> 2 ^ 31" "\<not> malloc_ok \<or> \<not> calloc_ok"
  shows "AudioRingBuffer_Create malloc_ok calloc_ok request channels = Some NULL"
proof -
  from assms(1) obtain k where "round_up_loop 1 request = Some (2 ^ k)"
    by (rule round_up_loop_smallest)
  with assms(2) show ?thesis
    by (auto simp: AudioRingBuffer_Create_def Let_def calloc_def)
qed

lemma hpp_ctor_succeeds:
  assumes "request \<le> 2 ^ 31" "alloc_ok" "channels < 2 ^ 31"
  shows "\<exists>x. hpp_AudioRingBuffer alloc_ok request channels
               = Some (Inr (x :: 'a::zero AudioRingBufferCpp))"
proof -
  from assms(1) obtain k where k: "k \<le> 31" "round_up_loop 1 request = Some (2 ^ k)"
    by (rule round_up_loop_smallest)
  have u: "unat ((2::32 word) ^ k) = 2 ^ k" using k(1) by (simp add: unat_pow32)
  define n where "n = 2 ^ k * unat channels"
  have "(2::nat) ^ k \<le> 2 ^ 31" using k(1) by (intro power_increasing) simp_all
  moreover have "unat channels \<le> 2 ^ 31 - 1" using assms(3) by (simp add: word_less_nat_alt)
  ultimately have "n \<le> 2 ^ 31 * (2 ^ 31 - 1)"
    unfolding n_def by (intro mult_mono) simp_all
  then have n4: "n * 4 < 2 ^ 64" by simp
  then have "memset0 (replicate n (0::'a)) 0 ((n * 4) mod 2 ^ 64) = Inr (replicate n 0)"
    by (simp add: memset0_def)
  with n4 assms(2) k(2) show ?thesis
    by (simp add: hpp_AudioRingBuffer_def new_floats_def u n_def[symmetric])
qed

lemma hpp_ctor_fails:
  assumes "request \<le> 2 ^ 31" "\<not> alloc_ok"
  shows "hpp_AudioRingBuffer alloc_ok request channels = Some (Inl BadAlloc)"
proof -
  from assms(1) obtain k where "round_up_loop 1 request = Some (2 ^ k)"
    by (rule round_up_loop_smallest)
  with assms(2) show ?thesis
    by (simp add: hpp_AudioRingBuffer_def new_floats_def)
qed

lemma RingBuffer_ctor_eq:
  "RingBuffer_ctor alloc_ok frames channels =
     (if alloc_ok
      then Inr \<lparr>mBuffer_rb = replicate (unat (frames * channels)) 0, mFrames = frames,
                mChannels = channels, mWritePos = 0, mReadPos = 0\<rparr>
      else Inl BadAlloc)"
proof -
  have "unat (frames * channels) < 2 ^ 32"
    using unsigned_less[of "frames * channels", where 'a = nat] by simp
  then have "unat (frames * channels) * 4 < 2 ^ 64" by simp
  then show ?thesis by (simp add: RingBuffer_ctor_def new_floats_def)
qed

lemma unat_mult_32:
  fixes a b :: "32 word"
  assumes "unat a * unat b < 2 ^ 32"
  shows "unat (a * b) = unat a * unat b"
  using assms unat_mult_lem[of a b] by simp

text \<open>
  Claim C4 (capacity realization), as amended. For every request of at most \<open>2 ^ 31\<close>
  frames, \<open>AudioRingBuffer_Create\<close> and the constructor of the C++ class
  \<open>AudioRingBuffer\<close> return. Each of them builds a buffer whenever its allocations
  succeed and the channel count is below \<open>2 ^ 31\<close>, and reports failure (\<open>NULL\<close>,
  respectively \<open>std::bad_alloc\<close>) whenever an allocation is refused. The buffer built
  has as capacity the smallest power of two greater than or equal to the request (the
  request itself when it is a power of two), never 0, a store of capacity times
  \<open>channelCount\<close> samples that are all zero, the channel count asked for and both
  cursors at 0; the mask of the C++ class is the capacity minus 1. The constructor of the
  driver's \<open>RingBuffer\<close> does not round, whatever the request: it builds a buffer
  exactly when the allocation succeeds, the capacity of that buffer is the request as
  given, both cursors are 0, and its store has \<open>frames * channels\<close> zero samples when
  that product is below \<open>2 ^ 32\<close>.
\<close>

theorem capacity_realization:
  fixes request channels :: "32 word"
  shows "(request \<le> 2 ^ 31 \<longrightarrow>
      (AudioRingBuffer_Create malloc_ok calloc_ok request channels
            :: 'a AudioRingBuffer ptr option) \<noteq> None
    \<and> (\<forall>b :: 'a::zero AudioRingBuffer.
          AudioRingBuffer_Create malloc_ok calloc_ok request channels = Some (Ptr b) \<longrightarrow>
          smallest_pow2_ge (unat (bufferSize b)) (unat request) \<and> bufferSize b \<noteq> 0
          \<and> buffer b = replicate (unat (bufferSize b) * unat channels) 0
          \<and> channelCount b = channels \<and> writeIndex b = 0 \<and> readIndex b = 0)
    \<and> (malloc_ok \<and> calloc_ok \<and> channels < 2 ^ 31 \<longrightarrow>
          (\<exists>b :: 'a AudioRingBuffer.
             AudioRingBuffer_Create malloc_ok calloc_ok request channels = Some (Ptr b)))
    \<and> (\<not> (malloc_ok \<and> calloc_ok) \<longrightarrow>
          (AudioRingBuffer_Create malloc_ok calloc_ok request channels
            :: 'a AudioRingBuffer ptr option) = Some NULL)
    \<and> (hpp_AudioRingBuffer alloc_ok request channels
           :: (fault + 'a AudioRingBufferCpp) option) \<noteq> None
    \<and> (\<forall>x :: 'a AudioRingBufferCpp.
          hpp_AudioRingBuffer alloc_ok request channels = Some (Inr x) \<longrightarrow>
          smallest_pow2_ge (unat (mBufferSize x)) (unat request) \<and> mBufferSize x \<noteq> 0
          \<and> mBufferMask x = mBufferSize x - 1
          \<and> mBuffer x = replicate (unat (mBufferSize x) * unat channels) 0
          \<and> mChannelCount x = channels \<and> mWriteIndex x = 0 \<and> mReadIndex x = 0)
    \<and> (alloc_ok \<and> channels < 2 ^ 31 \<longrightarrow>
          (\<exists>x :: 'a AudioRingBufferCpp.
             hpp_AudioRingBuffer alloc_ok request channels = Some (Inr x)))
    \<and> (\<not> alloc_ok \<longrightarrow>
          (hpp_AudioRingBuffer alloc_ok request channels
             :: (fault + 'a AudioRingBufferCpp) option) = Some (Inl BadAlloc)))
    \<and> (\<forall>rb :: 'a RingBuffer. RingBuffer_ctor alloc_ok request channels = Inr rb \<longrightarrow>
          mFrames rb = request \<and> mChannels rb = channels
          \<and> mWritePos rb = 0 \<and> mReadPos rb = 0
          \<and> (unat request * unat channels < 2 ^ 32 \<longrightarrow>
               mBuffer_rb rb = replicate (unat request * unat channels) 0))
    \<and> (alloc_ok \<longrightarrow>
          (\<exists>rb :: 'a RingBuffer. RingBuffer_ctor alloc_ok request channels = Inr rb))
    \<and> (\<not> alloc_ok \<longrightarrow>
          (RingBuffer_ctor alloc_ok request channels :: fault + 'a RingBuffer) = Inl BadAlloc)"
proof (intro conjI allI impI)
  assume req: "request \<le> 2 ^ 31"
  show "(AudioRingBuffer_Create malloc_ok calloc_ok request channels
            :: 'a AudioRingBuffer ptr option) \<noteq> None"
    by (rule Create_returns[OF req])
  show "(hpp_AudioRingBuffer alloc_ok request channels
           :: (fault + 'a AudioRingBufferCpp) option) \<noteq> None"
    by (rule hpp_ctor_returns[OF req])
next
  assume req: "request \<le> 2 ^ 31" and "malloc_ok \<and> calloc_ok \<and> channels < 2 ^ 31"
  then show "\<exists>b :: 'a AudioRingBuffer.
               AudioRingBuffer_Create malloc_ok calloc_ok request channels = Some (Ptr b)"
    using Create_succeeds[OF req] by blast
next
  assume req: "request \<le> 2 ^ 31" and "\<not> (malloc_ok \<and> calloc_ok)"
  then show "(AudioRingBuffer_Create malloc_ok calloc_ok request channels
            :: 'a AudioRingBuffer ptr option) = Some NULL"
    by (intro Create_fails) simp_all
next
  assume req: "request \<le> 2 ^ 31" and "alloc_ok \<and> channels < 2 ^ 31"
  then show "\<exists>x :: 'a AudioRingBufferCpp.
               hpp_AudioRingBuffer alloc_ok request channels = Some (Inr x)"
    by (intro hpp_ctor_succeeds) simp_all
next
  assume req: "request \<le> 2 ^ 31" and "\<not> alloc_ok"
  then show "(hpp_AudioRingBuffer alloc_ok request channels
             :: (fault + 'a AudioRingBufferCpp) option) = Some (Inl BadAlloc)"
    by (rule hpp_ctor_fails)
next
  fix b :: "'a AudioRingBuffer"
  assume "AudioRingBuffer_Create malloc_ok calloc_ok request channels = Some (Ptr b)"
  then obtain k where k: "k \<le> 31" "smallest_pow2_ge (2 ^ k) (unat request)"
    "b = \<lparr>buffer = replicate (2 ^ k * unat channels) 0, bufferSize = 2 ^ k,
          channelCount = channels, writeIndex = 0, readIndex = 0\<rparr>"
    by (rule Create_cases)
  have u: "unat ((2::32 word) ^ k) = 2 ^ k" using k(1) by (simp add: unat_pow32)
  show "smallest_pow2_ge (unat (bufferSize b)) (unat request)" using k(2) by (simp add: k(3) u)
  show "bufferSize b \<noteq> 0" using k(1) by (simp add: k(3))
  show "buffer b = replicate (unat (bufferSize b) * unat channels) 0" by (simp add: k(3) u)
  show "channelCount b = channels" "writeIndex b = 0" "readIndex b = 0" by (simp_all add: k(3))
next
  fix x :: "'a AudioRingBufferCpp"
  assume "hpp_AudioRingBuffer alloc_ok request channels = Some (Inr x)"
  then obtain k where k: "k \<le> 31" "smallest_pow2_ge (2 ^ k) (unat request)"
    "x = \<lparr>mBuffer = replicate (2 ^ k * unat channels) 0, mBufferSize = 2 ^ k,
          mBufferMask = 2 ^ k - 1, mChannelCount = channels, mWriteIndex = 0, mReadIndex = 0\<rparr>"
    by (rule hpp_ctor_cases)
  have u: "unat ((2::32 word) ^ k) = 2 ^ k" using k(1) by (simp add: unat_pow32)
  show "smallest_pow2_ge (unat (mBufferSize x)) (unat request)" using k(2) by (simp add: k(3) u)
  show "mBufferSize x \<noteq> 0" using k(1) by (simp add: k(3))
  show "mBufferMask x = mBufferSize x - 1" by (simp add: k(3))
  show "mBuffer x = replicate (unat (mBufferSize x) * unat channels) 0" by (simp add: k(3) u)
  show "mChannelCount x = channels" "mWriteIndex x = 0" "mReadIndex x = 0" by (simp_all add: k(3))
next
  fix rb :: "'a RingBuffer"
  assume "RingBuffer_ctor alloc_ok request channels = Inr rb"
  then have rb: "rb = \<lparr>mBuffer_rb = replicate (unat (request * channels)) 0, mFrames = request,
                    mChannels = channels, mWritePos = 0, mReadPos = 0\<rparr>"
    by (simp add: RingBuffer_ctor_eq split: if_splits)
  then show "mFrames rb = request" "mChannels rb = channels" "mWritePos rb = 0" "mReadPos rb = 0"
    by simp_all
  assume "unat request * unat channels < 2 ^ 32"
  then show "mBuffer_rb rb = replicate (unat request * unat channels) 0"
    by (simp add: rb unat_mult_32)
next
  assume "alloc_ok"
  then show "\<exists>rb :: 'a RingBuffer. RingBuffer_ctor alloc_ok request channels = Inr rb"
    by (simp add: RingBuffer_ctor_eq)
next
  assume "\<not> alloc_ok"
  then show "(RingBuffer_ctor alloc_ok request channels :: fault + 'a RingBuffer) = Inl BadAlloc"
    by (simp add: RingBuffer_ctor_eq)
qed

lemma round_up_loop_100: "round_up_loop 1 100 = Some 128"
  by (simp add: round_up_loop.simps)

theorem capacity_realization_witness:
  "(100 :: 32 word) \<le> 2 ^ 31 \<and> (2 :: 32 word) < 2 ^ 31
   \<and> unat (100 :: 32 word) * unat (2 :: 32 word) < 2 ^ 32
   \<and> AudioRingBuffer_Create True True 100 2
        = Some (Ptr \<lparr>buffer = replicate 256 (0::int), bufferSize = 128, channelCount = 2,
                      writeIndex = 0, readIndex = 0\<rparr>)
   \<and> hpp_AudioRingBuffer True 100 2
        = Some (Inr \<lparr>mBuffer = replicate 256 (0::int), mBufferSize = 128, mBufferMask = 127,
                      mChannelCount = 2, mWriteIndex = 0, mReadIndex = 0\<rparr>)
   \<and> RingBuffer_ctor True 100 2
        = Inr \<lparr>mBuffer_rb = replicate 200 (0::int), mFrames = 100, mChannels = 2,
               mWritePos = 0, mReadPos = 0\<rparr>
   \<and> smallest_pow2_ge 128 100
   \<and> AudioRingBuffer_Create False True 100 2 = (Some NULL :: int AudioRingBuffer ptr option)
   \<and> hpp_AudioRingBuffer False 100 2 = (Some (Inl BadAlloc) :: (fault + int AudioRingBufferCpp) option)
   \<and> RingBuffer_ctor False 100 2 = (Inl BadAlloc :: fault + int RingBuffer)"
proof -
  have r: "(100 :: 32 word) \<le> 2 ^ 31" by simp
  have ch: "(2 :: 32 word) < 2 ^ 31" by simp
  have p: "unat (100 :: 32 word) * unat (2 :: 32 word) < 2 ^ 32" by simp
  note T = capacity_realization[where request = 100 and channels = 2 and 'a = int
      and malloc_ok = True and calloc_ok = True and alloc_ok = True]
  note F = capacity_realization[where request = 100 and channels = 2 and 'a = int
      and malloc_ok = False and calloc_ok = True and alloc_ok = False]
  note A = T[THEN conjunct1, rule_format, OF r]
  note AF = F[THEN conjunct1, rule_format, OF r]
  note D = T[THEN conjunct2]
  note DF = F[THEN conjunct2]
  from A[THEN conjunct2, THEN conjunct2, THEN conjunct1] ch
  obtain b :: "int AudioRingBuffer" where b: "AudioRingBuffer_Create True True 100 2 = Some (Ptr b)"
    by auto
  have c: "AudioRingBuffer_Create True True 100 2
        = Some (Ptr \<lparr>buffer = replicate 256 (0::int), bufferSize = 128, channelCount = 2,
                      writeIndex = 0, readIndex = 0\<rparr>)"
    by (simp add: AudioRingBuffer_Create_def round_up_loop_100 calloc_def)
  from A[THEN conjunct2, THEN conjunct1, rule_format, OF c]
  have s: "smallest_pow2_ge 128 100" by simp
  from AF[THEN conjunct2, THEN conjunct2, THEN conjunct2, THEN conjunct1]
  have cf: "AudioRingBuffer_Create False True 100 2 = (Some NULL :: int AudioRingBuffer ptr option)"
    by simp
  from A[THEN conjunct2, THEN conjunct2, THEN conjunct2, THEN conjunct2,
         THEN conjunct2, THEN conjunct2, THEN conjunct1] ch
  obtain x :: "int AudioRingBufferCpp" where x: "hpp_AudioRingBuffer True 100 2 = Some (Inr x)"
    by auto
  have h: "hpp_AudioRingBuffer True 100 2
        = Some (Inr \<lparr>mBuffer = replicate 256 (0::int), mBufferSize = 128, mBufferMask = 127,
                      mChannelCount = 2, mWriteIndex = 0, mReadIndex = 0\<rparr>)"
    by (simp add: hpp_AudioRingBuffer_def round_up_loop_100 new_floats_def memset0_def)
  from AF[THEN conjunct2, THEN conjunct2, THEN conjunct2, THEN conjunct2,
         THEN conjunct2, THEN conjunct2, THEN conjunct2]
  have hf: "hpp_AudioRingBuffer False 100 2 = (Some (Inl BadAlloc) :: (fault + int AudioRingBufferCpp) option)"
    by simp
  from D[THEN conjunct2, THEN conjunct1]
  obtain rb :: "int RingBuffer" where rb: "RingBuffer_ctor True 100 2 = Inr rb"
    by auto
  from D[THEN conjunct1, rule_format, OF rb] p
  have "mFrames rb = 100" "mChannels rb = 2" "mWritePos rb = 0" "mReadPos rb = 0"
    "mBuffer_rb rb = replicate 200 0"
    by simp_all
  then have "rb = \<lparr>mBuffer_rb = replicate 200 (0::int), mFrames = 100, mChannels = 2,
               mWritePos = 0, mReadPos = 0\<rparr>"
    by (cases rb) simp
  with rb have d: "RingBuffer_ctor True 100 2
        = Inr \<lparr>mBuffer_rb = replicate 200 (0::int), mFrames = 100, mChannels = 2,
               mWritePos = 0, mReadPos = 0\<rparr>"
    by simp
  from DF[THEN conjunct2, THEN conjunct2]
  have df: "RingBuffer_ctor False 100 2 = (Inl BadAlloc :: fault + int RingBuffer)"
    by simp
  from r ch p c h d s cf hf df show ?thesis by (intro conjI)
qed

text \<open>
  Claim C4 as stated fails. The driver builds its \<open>RingBuffer\<close> with
  \<open>kDevice_RingBufferSize = 96000\<close> frames and gets a capacity of 96000, which is not
  a power of two. And for a request above \<open>2 ^ 31\<close> the rounding loop of
  \<open>AudioRingBuffer_Create\<close> shifts its 32-bit counter to 0 and never ends.
\<close>

theorem capacity_realization_counterexample:
  "RingBuffer_ctor True kDevice_RingBufferSize kDevice_ChannelCount
     = Inr \<lparr>mBuffer_rb = replicate 192000 (0::int), mFrames = 96000, mChannels = 2,
            mWritePos = 0, mReadPos = 0\<rparr>
   \<and> \<not> smallest_pow2_ge (unat (96000 :: 32 word)) (unat kDevice_RingBufferSize)
   \<and> (AudioRingBuffer_Create True True (2 ^ 31 + 1) 2 :: int AudioRingBuffer ptr option) = None"
proof (intro conjI)
  show "RingBuffer_ctor True kDevice_RingBufferSize kDevice_ChannelCount
     = Inr \<lparr>mBuffer_rb = replicate 192000 (0::int), mFrames = 96000, mChannels = 2,
            mWritePos = 0, mReadPos = 0\<rparr>"
    by (simp add: RingBuffer_ctor_def new_floats_def kDevice_RingBufferSize_def kDevice_ChannelCount_def)
  show "\<not> smallest_pow2_ge (unat (96000 :: 32 word)) (unat kDevice_RingBufferSize)"
    using not_pow2_96000 by (simp add: smallest_pow2_ge_def kDevice_RingBufferSize_def)
  show "(AudioRingBuffer_Create True True (2 ^ 31 + 1) 2 :: int AudioRingBuffer ptr option) = None"
    by (rule Create_diverges) simp
qed

section \<open>The buffer is a FIFO of frames\<close>

lemma of_nat_unat32 [simp]: "of_nat (unat (w :: 32 word)) = w"
  by simp

lemma GetAvailableFrames_of_nat:
  assumes "wf b"
  shows "AudioRingBuffer_GetAvailableFrames (Ptr b) = of_nat (available b)"
  using unat_GetAvailableFrames[OF assms, symmetric] by simp

lemma GetFreeFrames_of_nat:
  assumes "wf b"
  shows "AudioRingBuffer_GetFreeFrames (Ptr b) = of_nat (unat (bufferSize b) - available b)"
  using unat_GetFreeFrames[OF assms, symmetric] by simp

lemma run_ops_refines:
  fixes b :: "'a::zero AudioRingBuffer"
  assumes "wf b" "0 < unat (channelCount b)"
    and "\<forall>op\<in>set ops. op_fits (unat (channelCount b)) op"
  shows "run_ops (Ptr b) ops
           = Inr (fifo_run (unat (bufferSize b)) (unat (channelCount b)) (contents b) ops)"
  using assms
proof (induction ops arbitrary: b)
  case Nil
  show ?case by simp
next
  case (Cons op ops)
  note wf = Cons.prems(1) and N = Cons.prems(2)
  have fr: "length (contents b) div unat (channelCount b) = available b"
    using N by simp
  show ?case
  proof (cases op)
    case (OpWrite d frameCount)
    with Cons.prems have len: "unat frameCount * unat (channelCount b) \<le> length d" by simp
    then have fit: "unat (framesToWrite b frameCount) * unat (channelCount b) \<le> length d"
      by (rule framesToWrite_fits)
    have IH: "run_ops (Ptr (written b d frameCount)) ops
            = Inr (fifo_run (unat (bufferSize b)) (unat (channelCount b))
                     (contents (written b d frameCount)) ops)"
      using Cons.IH[of "written b d frameCount"] Cons.prems wf_written[OF wf] by simp
    show ?thesis
      using N by (simp add: OpWrite Write_Ptr[OF wf fit] IH fifo_write_def Let_def
          unat_framesToWrite[OF wf, symmetric] contents_written[OF wf fit])
  next
    case (OpRead d frameCount)
    with Cons.prems have len: "unat frameCount * unat (channelCount b) \<le> length d"
      and arr: "length d * 4 < 2 ^ 64" by simp_all
    have IH: "run_ops (Ptr (consumed b frameCount)) ops
            = Inr (fifo_run (unat (bufferSize b)) (unat (channelCount b))
                     (contents (consumed b frameCount)) ops)"
      using Cons.IH[of "consumed b frameCount"] Cons.prems wf_consumed[OF wf] by simp
    show ?thesis
      using N by (simp add: OpRead Read_Ptr[OF wf len arr] IH fifo_read_def Let_def
          unat_framesToRead[OF wf, symmetric] contents_consumed[OF wf])
  next
    case OpAvailable
    have IH: "run_ops (Ptr b) ops
            = Inr (fifo_run (unat (bufferSize b)) (unat (channelCount b)) (contents b) ops)"
      using Cons.IH[of b] Cons.prems by simp
    show ?thesis
      using N by (simp add: OpAvailable IH GetAvailableFrames_of_nat[OF wf])
  next
    case OpFree
    have IH: "run_ops (Ptr b) ops
            = Inr (fifo_run (unat (bufferSize b)) (unat (channelCount b)) (contents b) ops)"
      using Cons.IH[of b] Cons.prems by simp
    show ?thesis
      using N by (simp add: OpFree IH GetFreeFrames_of_nat[OF wf])
  qed
qed

lemma round_up_loop_2: "round_up_loop 1 2 = Some 2"
  by (simp add: round_up_loop.simps)

text \<open>
  Claim C1 (FIFO correctness). Take a buffer that \<open>AudioRingBuffer_Create\<close> returns,
  with any channel count \<open>N \<ge> 1\<close>, and any sequence of write and read calls (and of
  queries of the available and free counts) whose arrays hold the frames they announce.
  The calls return without a fault and their results are those of the bounded FIFO of
  the specification started empty: each read returns the oldest written and not yet
  consumed frames, in write order and sample by sample as they were written, however many
  frames went through before, so also after the cursors have passed the capacity. In
  particular writing \<open>W\<close> frames, \<open>W\<close> at most the capacity, into the new buffer
  and reading \<open>W\<close> frames gives back the \<open>W * N\<close> samples written.
\<close>

theorem fifo_correctness:
  fixes b :: "'a::zero AudioRingBuffer"
  assumes cr: "AudioRingBuffer_Create malloc_ok calloc_ok request channels = Some (Ptr b)"
    and N: "1 \<le> unat channels"
    and fits: "\<forall>op\<in>set ops. op_fits (unat channels) op"
  shows "run_ops (Ptr b) ops = Inr (fifo_run (unat (bufferSize b)) (unat channels) [] ops)
    \<and> (\<forall>d out W.
          unat W \<le> unat (bufferSize b) \<and> unat W * unat channels \<le> length d
          \<and> unat W * unat channels \<le> length out \<and> length out * 4 < 2 ^ 64 \<longrightarrow>
          run_ops (Ptr b) [OpWrite d W, OpRead out W]
            = Inr [Wrote W, ReadOut W (Ptr (take (unat W * unat channels) d
                                            @ drop (unat W * unat channels) out))])"
proof (intro conjI allI impI)
  have wf: "wf b" and c: "contents b = []" and cc: "channelCount b = channels"
    using Create_wf[OF cr] by simp_all
  have N': "0 < unat (channelCount b)" using N cc by simp
  show "run_ops (Ptr b) ops = Inr (fifo_run (unat (bufferSize b)) (unat channels) [] ops)"
    using run_ops_refines[OF wf N', of ops] fits by (simp add: cc c)
  fix d out :: "'a list" and W :: "32 word"
  assume a: "unat W \<le> unat (bufferSize b) \<and> unat W * unat channels \<le> length d
          \<and> unat W * unat channels \<le> length out \<and> length out * 4 < 2 ^ 64"
  then have "\<forall>op\<in>set [OpWrite d W, OpRead out W]. op_fits (unat (channelCount b)) op"
    by (simp add: cc)
  from run_ops_refines[OF wf N' this]
  have "run_ops (Ptr b) [OpWrite d W, OpRead out W]
          = Inr (fifo_run (unat (bufferSize b)) (unat channels) [] [OpWrite d W, OpRead out W])"
    by (simp add: cc c)
  also have "fifo_run (unat (bufferSize b)) (unat channels) [] [OpWrite d W, OpRead out W]
          = [Wrote W, ReadOut W (Ptr (take (unat W * unat channels) d
                                            @ drop (unat W * unat channels) out))]"
    using a N by (simp add: fifo_write_def fifo_read_def Let_def min_absorb1 min_absorb2)
  finally show "run_ops (Ptr b) [OpWrite d W, OpRead out W]
            = Inr [Wrote W, ReadOut W (Ptr (take (unat W * unat channels) d
                                            @ drop (unat W * unat channels) out))]" .
qed

theorem fifo_correctness_witness:
  "AudioRingBuffer_Create True True 2 1
     = Some (Ptr \<lparr>buffer = [0, 0 :: int], bufferSize = 2, channelCount = 1,
                   writeIndex = 0, readIndex = 0\<rparr>)
   \<and> run_ops (Ptr \<lparr>buffer = [0, 0 :: int], bufferSize = 2, channelCount = 1,
                     writeIndex = 0, readIndex = 0\<rparr>)
        [OpWrite [1, 2] 2, OpRead [9] 1, OpWrite [3, 4] 2, OpRead [9, 9, 9] 3]
     = Inr [Wrote 2, ReadOut 1 (Ptr [1]), Wrote 1, ReadOut 2 (Ptr [2, 3, 0])]"
proof -
  have r2: "replicate 2 (0::int) = [0, 0]" by (simp add: numeral_2_eq_2)
  have c: "AudioRingBuffer_Create True True 2 1
     = Some (Ptr \<lparr>buffer = [0, 0 :: int], bufferSize = 2, channelCount = 1,
                   writeIndex = 0, readIndex = 0\<rparr>)"
    by (simp add: AudioRingBuffer_Create_def round_up_loop_2 calloc_def r2)
  have N: "1 \<le> unat (1 :: 32 word)" by simp
  have fits: "\<forall>op\<in>set [OpWrite [1, 2 :: int] 2, OpRead [9] 1, OpWrite [3, 4] 2, OpRead [9, 9, 9] 3].
                op_fits (unat (1 :: 32 word)) op"
    by simp
  have "fifo_run 2 1 [] [OpWrite [1, 2 :: int] 2, OpRead [9] 1, OpWrite [3, 4] 2, OpRead [9, 9, 9] 3]
          = [Wrote 2, ReadOut 1 (Ptr [1]), Wrote 1, ReadOut 2 (Ptr [2, 3, 0])]"
    by (simp add: fifo_write_def fifo_read_def Let_def)
  with fifo_correctness[OF c N fits, THEN conjunct1] c show ?thesis by simp
qed

section \<open>The scenario of the specification\<close>

lemma length_ramp [simp]: "length (ramp i n) = 2 * n"
  by (induction n arbitrary: i) simp_all










section \<open>Reachable states and the cursors\<close>

lemma copy_frame_length:
  assumes "copy_frame src so dof channels dst = Inr s"
  shows "length s = length dst"
proof (cases "channels = 0 \<or> (so + channels \<le> length src \<and> dof + channels \<le> length dst)")
  case True
  from copy_frame_ok[OF True] assms show ?thesis by simp
next
  case False
  then have "copy_frame src so dof channels dst = Inl OutOfBounds"
    by (intro copy_frame_fault) auto
  with assms show ?thesis by simp
qed

lemma for_loop_copy_frame_length:
  assumes "for_loop n (\<lambda>i. copy_frame src (q i) (p i) cc) dst = Inr s"
  shows "length s = length dst"
  using assms
proof (induction n arbitrary: s)
  case 0 then show ?case by simp
next
  case (Suc n)
  then obtain s' where s': "for_loop n (\<lambda>i. copy_frame src (q i) (p i) cc) dst = Inr s'"
    and c: "copy_frame src (q n) (p n) cc s' = Inr s"
    by (auto split: sum.splits)
  from copy_frame_length[OF c] Suc.IH[OF s'] show ?case by simp
qed

lemma framesToWrite_if:
  "(if frameCount < AudioRingBuffer_GetFreeFrames (Ptr b) then frameCount
    else AudioRingBuffer_GetFreeFrames (Ptr b)) = framesToWrite b frameCount"
  by (auto simp: framesToWrite_def min_def)

lemma Write_state:
  assumes "AudioRingBuffer_Write (Ptr b) data frameCount = Inr (n, q)"
  shows "(n = 0 \<and> q = Ptr b) \<or>
         (\<exists>store. n = framesToWrite b frameCount \<and> length store = length (buffer b)
            \<and> q = Ptr (b\<lparr>buffer := store, writeIndex := writeIndex b + ucast n\<rparr>))"
proof (cases data)
  case NULL
  with assms show ?thesis by (simp add: AudioRingBuffer_Write_def)
next
  case (Ptr d)
  show ?thesis
  proof (cases "frameCount = 0 \<or> framesToWrite b frameCount = 0")
    case True
    with assms Ptr show ?thesis
      unfolding AudioRingBuffer_Write_def Let_def framesToWrite_if by (auto split: if_splits)
  next
    case False
    with assms Ptr obtain store where
      l: "for_loop (unat (framesToWrite b frameCount))
            (\<lambda>i. copy_frame d (i * unat (channelCount b))
                    (unat (bufferPos (writeIndex b) i (bufferSize b - 1)) * unat (channelCount b))
                    (unat (channelCount b))) (buffer b) = Inr store"
      and r: "n = framesToWrite b frameCount"
        "q = Ptr (b\<lparr>buffer := store, writeIndex := writeIndex b + ucast (framesToWrite b frameCount)\<rparr>)"
      unfolding AudioRingBuffer_Write_def Let_def framesToWrite_if
      by (auto split: sum.splits if_splits)
    from for_loop_copy_frame_length[OF l] r show ?thesis by auto
  qed
qed

lemma Read_state:
  assumes "AudioRingBuffer_Read (Ptr b) data frameCount = Inr (n, q, data')"
  shows "(n = 0 \<and> q = Ptr b) \<or> (n = framesToRead b frameCount \<and> q = Ptr (consumed b frameCount))"
proof (cases data)
  case NULL
  with assms show ?thesis by (simp add: AudioRingBuffer_Read_def)
next
  case (Ptr d)
  show ?thesis
  proof (cases "frameCount = 0 \<or> framesToRead b frameCount = 0")
    case True
    with assms Ptr show ?thesis
      unfolding AudioRingBuffer_Read_def Let_def framesToRead_if by (auto split: sum.splits if_splits)
  next
    case False
    with assms Ptr show ?thesis
      unfolding AudioRingBuffer_Read_def Let_def framesToRead_if
      by (auto simp: consumed_def split: sum.splits if_splits)
  qed
qed

lemma Peek_state:
  assumes "AudioRingBuffer_Peek (Ptr b) data frameCount = Inr (n, q, data')"
  shows "q = Ptr b"
  using assms unfolding AudioRingBuffer_Peek_def Let_def
  by (auto split: ptr.splits sum.splits if_splits)

lemma unat_cursor_diff:
  fixes tw tr C :: nat
  assumes "tr \<le> tw" "tw - tr \<le> C" "C < 2 ^ 32"
  shows "unat (of_nat tw - of_nat tr :: 64 word) = tw - tr"
proof -
  have "(of_nat tw - of_nat tr :: 64 word) = of_nat (tw - tr)"
    using assms(1) by simp
  moreover have "tw - tr < 2 ^ 64" using assms(2,3) by simp
  ultimately show ?thesis by (simp add: unat_of_nat)
qed

lemma reach_inv_available:
  assumes "reach_inv request channels b tw tr"
  shows "available b = tw - tr"
proof -
  have lt: "unat (bufferSize b) < 2 ^ 32" using unsigned_less[of "bufferSize b", where 'a = nat] by simp
  from assms have "tr \<le> tw" "tw - tr \<le> unat (bufferSize b)"
    and cur: "writeIndex b = of_nat tw" "readIndex b = of_nat tr"
    by (simp_all add: reach_inv_def)
  from unat_cursor_diff[OF this(1,2) lt] show ?thesis
    by (simp add: available_def cur)
qed

lemma reach_invI:
  assumes "reach_inv request channels b tw tr"
    and sel: "bufferSize b' = bufferSize b" "channelCount b' = channelCount b"
      "length (buffer b') = length (buffer b)"
    and cur: "writeIndex b' = of_nat tw'" "readIndex b' = of_nat tr'"
    and le: "tr' \<le> tw'" "tw' - tr' \<le> unat (bufferSize b)"
  shows "reach_inv request channels b' tw' tr'"
proof -
  have lt: "unat (bufferSize b) < 2 ^ 32" using unsigned_less[of "bufferSize b", where 'a = nat] by simp
  have "unat (writeIndex b' - readIndex b') = tw' - tr'"
    unfolding cur using le lt by (rule unat_cursor_diff)
  then have d: "writeIndex b' - readIndex b' \<le> ucast (bufferSize b')"
    using le by (simp add: word_le_nat_alt unat_ucast_32_64 sel)
  from assms have wf: "wf b" by (simp add: reach_inv_def)
  have "wf b'"
    unfolding wf_def sel
  proof (intro conjI)
    show "\<exists>k\<in>{..<32}. bufferSize b = 2 ^ k" using wf by (simp add: wf_def)
    show "length (buffer b) = unat (bufferSize b) * unat (channelCount b)" using wf by (simp add: wf_def)
    show "length (buffer b) * 4 < 2 ^ 64" using wf unfolding wf_def by blast
    show "writeIndex b' - readIndex b' \<le> ucast (bufferSize b)" using d by (simp add: sel)
  qed
  with assms sel cur le show ?thesis
    by (simp add: reach_inv_def)
qed

lemma reach_reach_inv:
  assumes "reach request channels b tw tr"
  shows "reach_inv request channels b tw tr"
  using assms
proof (induction rule: reach.induct)
  case (reach_create malloc_ok calloc_ok b)
  from reach_create obtain k where k: "k \<le> 31" "smallest_pow2_ge (2 ^ k) (unat request)"
    "b = \<lparr>buffer = replicate (2 ^ k * unat channels) 0, bufferSize = 2 ^ k,
          channelCount = channels, writeIndex = 0, readIndex = 0\<rparr>"
    by (rule Create_cases)
  have u: "unat ((2::32 word) ^ k) = 2 ^ k" using k(1) by (simp add: unat_pow32)
  from Create_wf(1)[OF reach_create] k(2) show ?case
    by (simp add: reach_inv_def k(3) u)
next
  case (reach_reset b tw tr b')
  then have inv: "reach_inv request channels b tw tr" and wf: "wf b"
    by (simp_all add: reach_inv_def)
  from reach_reset(2) have b': "b' = b\<lparr>writeIndex := 0, readIndex := 0,
                          buffer := replicate (unat (bufferSize b) * unat (channelCount b)) 0\<rparr>"
    by (simp add: Reset_Ptr[OF wf])
  show ?case
    using wf by (intro reach_invI[OF inv]) (simp_all add: b' wf_def)
next
  case (reach_write b tw tr data frameCount n b')
  then have inv: "reach_inv request channels b tw tr" and wf: "wf b"
    by (simp_all add: reach_inv_def)
  have av: "available b = tw - tr" using inv by (rule reach_inv_available)
  from inv have cur: "writeIndex b = of_nat tw" "readIndex b = of_nat tr" "tr \<le> tw"
    "tw - tr \<le> unat (bufferSize b)"
    by (simp_all add: reach_inv_def)
  from Write_state[OF reach_write(2)] show ?case
  proof (elim disjE conjE exE)
    assume "n = 0" "Ptr b' = Ptr b"
    with inv show ?thesis by simp
  next
    fix store
    assume n: "n = framesToWrite b frameCount" and l: "length store = length (buffer b)"
      and b': "Ptr b' = Ptr (b\<lparr>buffer := store, writeIndex := writeIndex b + ucast n\<rparr>)"
    have nle: "unat n \<le> unat (bufferSize b) - (tw - tr)"
      by (simp add: n unat_framesToWrite[OF wf] av)
    have "writeIndex b' = of_nat (tw + unat n)"
      using b' by (simp add: cur)
    moreover have "tw + unat n - tr \<le> unat (bufferSize b)" using nle cur by simp
    ultimately show ?thesis
      using b' l cur by (intro reach_invI[OF inv]) simp_all
  qed
next
  case (reach_read b tw tr data frameCount n b' data')
  then have inv: "reach_inv request channels b tw tr" and wf: "wf b"
    by (simp_all add: reach_inv_def)
  have av: "available b = tw - tr" using inv by (rule reach_inv_available)
  from inv have cur: "writeIndex b = of_nat tw" "readIndex b = of_nat tr" "tr \<le> tw"
    "tw - tr \<le> unat (bufferSize b)"
    by (simp_all add: reach_inv_def)
  from Read_state[OF reach_read(2)] show ?case
  proof (elim disjE conjE)
    assume "n = 0" "Ptr b' = Ptr b"
    with inv show ?thesis by simp
  next
    assume n: "n = framesToRead b frameCount" and b': "Ptr b' = Ptr (consumed b frameCount)"
    have nle: "unat n \<le> tw - tr"
      by (simp add: n unat_framesToRead[OF wf] av)
    have "readIndex b' = of_nat (tr + unat n)"
      using b' by (simp add: cur n)
    then show ?thesis
      using b' cur nle by (intro reach_invI[OF inv]) simp_all
  qed
next
  case (reach_peek b tw tr data frameCount n b' data')
  from Peek_state[OF reach_peek(2)] reach_peek(3) show ?case by simp
next
  case (reach_skip b tw tr frameCount b')
  then have inv: "reach_inv request channels b tw tr" and wf: "wf b"
    by (simp_all add: reach_inv_def)
  have av: "available b = tw - tr" using inv by (rule reach_inv_available)
  from inv have cur: "writeIndex b = of_nat tw" "readIndex b = of_nat tr" "tr \<le> tw"
    "tw - tr \<le> unat (bufferSize b)"
    by (simp_all add: reach_inv_def)
  define n where "n = framesToRead b frameCount"
  have ng: "min frameCount (AudioRingBuffer_GetAvailableFrames (Ptr b)) = n"
    by (simp add: n_def framesToRead_def)
  have b': "b' = consumed b frameCount" using reach_skip(2) by (simp add: Skip_Ptr)
  have nle: "unat n \<le> tw - tr"
    by (simp add: n_def unat_framesToRead[OF wf] av)
  have "readIndex b' = of_nat (tr + unat n)"
    using b' by (simp add: cur n_def)
  then show ?case
    unfolding ng using b' cur nle by (intro reach_invI[OF inv]) simp_all
qed

lemma round_up_loop_1_1: "round_up_loop 1 1 = Some 1"
  by (simp add: round_up_loop.simps)

lemma wf_unit:
  "wf \<lparr>buffer = [0::int], bufferSize = 1, channelCount = 1, writeIndex = w, readIndex = w\<rparr>"
  unfolding wf_def by (simp add: bexI[of _ 0])

lemma Write_unit:
  "AudioRingBuffer_Write
     (Ptr \<lparr>buffer = [0::int], bufferSize = 1, channelCount = 1, writeIndex = w, readIndex = w\<rparr>)
     (Ptr [0]) 1
   = Inr (1, Ptr \<lparr>buffer = [0], bufferSize = 1, channelCount = 1, writeIndex = w + 1, readIndex = w\<rparr>)"
  by (simp add: AudioRingBuffer_Write_def AudioRingBuffer_GetFreeFrames_def
      AudioRingBuffer_GetAvailableFrames_def copy_frame_def load_def store_at_def bufferPos_def)

lemma Read_unit:
  "AudioRingBuffer_Read
     (Ptr \<lparr>buffer = [0::int], bufferSize = 1, channelCount = 1, writeIndex = w + 1, readIndex = w\<rparr>)
     (Ptr [0]) 1
   = Inr (1, Ptr \<lparr>buffer = [0], bufferSize = 1, channelCount = 1, writeIndex = w + 1, readIndex = w + 1\<rparr>,
          Ptr [0])"
  by (simp add: AudioRingBuffer_Read_def
      AudioRingBuffer_GetAvailableFrames_def copy_frame_def load_def store_at_def bufferPos_def)

lemma reach_cycle:
  "reach 1 1 \<lparr>buffer = [0::int], bufferSize = 1, channelCount = 1,
               writeIndex = of_nat k, readIndex = of_nat k\<rparr> k k"
proof (induction k)
  case 0
  have "AudioRingBuffer_Create True True 1 1
          = Some (Ptr \<lparr>buffer = [0::int], bufferSize = 1, channelCount = 1,
                        writeIndex = 0, readIndex = 0\<rparr>)"
    by (simp add: AudioRingBuffer_Create_def round_up_loop_1_1 calloc_def)
  from reach_create[OF this] show ?case by simp
next
  case (Suc k)
  have e: "(of_nat (Suc k) :: 64 word) = of_nat k + 1" by simp
  from reach_write[OF Suc Write_unit]
  have "reach 1 1 \<lparr>buffer = [0::int], bufferSize = 1, channelCount = 1,
               writeIndex = of_nat k + 1, readIndex = of_nat k\<rparr> (Suc k) k"
    by simp
  from reach_read[OF this Read_unit]
  have "reach 1 1 \<lparr>buffer = [0::int], bufferSize = 1, channelCount = 1,
               writeIndex = of_nat k + 1, readIndex = of_nat k + 1\<rparr> (Suc k) (k + unat (1 :: 32 word))" .
  then show ?case unfolding e by simp
qed

text \<open>
  Claim C6 (cursor invariant), as amended. In every state reached from create by calls of
  reset, write, read, peek and skip, with \<open>tw\<close> and \<open>tr\<close> the frames written and
  consumed since the buffer was created or last reset: the channel count is the one given
  at construction and the capacity the one realized then; \<open>writeIndex\<close> is
  \<open>tw mod 2 ^ 64\<close> and \<open>readIndex\<close> is \<open>tr mod 2 ^ 64\<close>; \<open>tr \<le> tw\<close> and
  \<open>tw - tr\<close> is at most the capacity; \<open>AudioRingBuffer_GetAvailableFrames\<close> returns
  \<open>writeIndex - readIndex\<close> computed in 64 bits, which is \<open>tw - tr\<close>, and
  \<open>AudioRingBuffer_GetFreeFrames\<close> returns the capacity minus the available count. As
  long as fewer than \<open>2 ^ 64\<close> frames have been written, so that the write cursor has
  not wrapped, \<open>readIndex \<le> writeIndex\<close> and \<open>writeIndex - readIndex\<close> is at most the
  capacity as plain integers too.
\<close>

theorem cursor_invariant:
  assumes "reach request channels b tw tr"
  shows "channelCount b = channels
     \<and> smallest_pow2_ge (unat (bufferSize b)) (unat request)
     \<and> wf b
     \<and> unat (writeIndex b) = tw mod 2 ^ 64 \<and> unat (readIndex b) = tr mod 2 ^ 64
     \<and> tr \<le> tw \<and> tw - tr \<le> unat (bufferSize b)
     \<and> unat (writeIndex b - readIndex b) = tw - tr
     \<and> unat (AudioRingBuffer_GetAvailableFrames (Ptr b)) = tw - tr
     \<and> AudioRingBuffer_GetFreeFrames (Ptr b)
           = bufferSize b - AudioRingBuffer_GetAvailableFrames (Ptr b)
     \<and> unat (AudioRingBuffer_GetFreeFrames (Ptr b)) = unat (bufferSize b) - (tw - tr)
     \<and> (tw < 2 ^ 64 \<longrightarrow>
           readIndex b \<le> writeIndex b
           \<and> unat (writeIndex b) - unat (readIndex b) \<le> unat (bufferSize b)
           \<and> unat (AudioRingBuffer_GetAvailableFrames (Ptr b))
                = unat (writeIndex b) - unat (readIndex b))"
proof -
  have inv: "reach_inv request channels b tw tr" using assms by (rule reach_reach_inv)
  then have wf: "wf b" and cc: "channelCount b = channels"
    and cap: "smallest_pow2_ge (unat (bufferSize b)) (unat request)"
    and cur: "writeIndex b = of_nat tw" "readIndex b = of_nat tr"
    and le: "tr \<le> tw" "tw - tr \<le> unat (bufferSize b)"
    by (simp_all add: reach_inv_def)
  have av: "available b = tw - tr" using inv by (rule reach_inv_available)
  have w: "unat (writeIndex b) = tw mod 2 ^ 64" and r: "unat (readIndex b) = tr mod 2 ^ 64"
    by (simp_all add: cur unat_of_nat)
  have ga: "unat (AudioRingBuffer_GetAvailableFrames (Ptr b)) = tw - tr"
    by (simp add: unat_GetAvailableFrames[OF wf] av)
  have nowrap: "readIndex b \<le> writeIndex b
           \<and> unat (writeIndex b) - unat (readIndex b) \<le> unat (bufferSize b)
           \<and> unat (AudioRingBuffer_GetAvailableFrames (Ptr b))
                = unat (writeIndex b) - unat (readIndex b)"
    if "tw < 2 ^ 64"
  proof -
    from that le have "unat (writeIndex b) = tw" "unat (readIndex b) = tr"
      by (simp_all add: w r)
    with le ga show ?thesis by (simp add: word_le_nat_alt)
  qed
  show ?thesis
  proof (intro conjI impI)
    show "unat (writeIndex b - readIndex b) = tw - tr" using av by (simp add: available_def)
    show "AudioRingBuffer_GetFreeFrames (Ptr b)
           = bufferSize b - AudioRingBuffer_GetAvailableFrames (Ptr b)"
      by (simp add: AudioRingBuffer_GetFreeFrames_def)
    show "unat (AudioRingBuffer_GetFreeFrames (Ptr b)) = unat (bufferSize b) - (tw - tr)"
      by (simp add: unat_GetFreeFrames[OF wf] av)
  next
    assume "tw < 2 ^ 64"
    from nowrap[OF this]
    show "readIndex b \<le> writeIndex b"
      "unat (writeIndex b) - unat (readIndex b) \<le> unat (bufferSize b)"
      "unat (AudioRingBuffer_GetAvailableFrames (Ptr b)) = unat (writeIndex b) - unat (readIndex b)"
      by simp_all
  qed (simp_all add: wf cc cap w r le ga)
qed

theorem cursor_invariant_witness:
  "reach 1 1 \<lparr>buffer = [0::int], bufferSize = 1, channelCount = 1,
               writeIndex = 4, readIndex = 3\<rparr> 4 3
   \<and> unat (AudioRingBuffer_GetAvailableFrames
        (Ptr \<lparr>buffer = [0::int], bufferSize = 1, channelCount = 1,
               writeIndex = 4, readIndex = 3\<rparr>)) = 4 - 3
   \<and> (3 :: 64 word) \<le> 4"
proof -
  define b :: "int AudioRingBuffer" where
    "b = \<lparr>buffer = [0], bufferSize = 1, channelCount = 1, writeIndex = 4, readIndex = 3\<rparr>"
  have e: "(of_nat 3 :: 64 word) = 3" "(3 :: 64 word) + 1 = 4" "3 + unat (1 :: 32 word) = 4"
    by simp_all
  have r: "reach 1 1 b 4 3"
    using reach_write[OF reach_cycle[of 3] Write_unit] unfolding e b_def .
  have lt: "(4::nat) < 2 ^ 64" by simp
  from cursor_invariant[OF r] lt
  have "unat (AudioRingBuffer_GetAvailableFrames (Ptr b)) = 4 - 3" and "readIndex b \<le> writeIndex b"
    by blast+
  with r show ?thesis unfolding b_def by simp
qed

text \<open>
  Claim C6 as stated fails once the 64-bit write cursor wraps: on a buffer of one frame,
  \<open>2 ^ 64 - 1\<close> rounds of writing and reading one frame followed by one more write
  leave \<open>writeIndex = 0\<close> and \<open>readIndex = 2 ^ 64 - 1\<close>.
\<close>

theorem cursor_invariant_counterexample:
  "reach 1 1 \<lparr>buffer = [0::int], bufferSize = 1, channelCount = 1,
               writeIndex = 0, readIndex = 18446744073709551615\<rparr>
         (2 ^ 64) (2 ^ 64 - 1)
   \<and> \<not> readIndex \<lparr>buffer = [0::int], bufferSize = 1, channelCount = 1,
                     writeIndex = 0, readIndex = 18446744073709551615\<rparr>
        \<le> writeIndex \<lparr>buffer = [0::int], bufferSize = 1, channelCount = 1,
                     writeIndex = 0, readIndex = 18446744073709551615\<rparr>"
proof
  have w: "(of_nat (2 ^ 64 - 1) :: 64 word) = 18446744073709551615" by simp
  have z: "(18446744073709551615 :: 64 word) + 1 = 0" by simp
  have n: "(2 ^ 64 - 1 :: nat) + unat (1 :: 32 word) = 2 ^ 64" by simp
  from reach_write[OF reach_cycle[of "2 ^ 64 - 1"] Write_unit]
  show "reach 1 1 \<lparr>buffer = [0::int], bufferSize = 1, channelCount = 1,
               writeIndex = 0, readIndex = 18446744073709551615\<rparr>
         (2 ^ 64) (2 ^ 64 - 1)"
    unfolding w z n .
  show "\<not> readIndex \<lparr>buffer = [0::int], bufferSize = 1, channelCount = 1,
                     writeIndex = 0, readIndex = 18446744073709551615\<rparr>
        \<le> writeIndex \<lparr>buffer = [0::int], bufferSize = 1, channelCount = 1,
                     writeIndex = 0, readIndex = 18446744073709551615\<rparr>"
    by simp
qed

end
